theory Spec2Isabelle
  imports Main
begin

section \<open>Strings\<close>

text \<open>
  A Python \<open>str\<close> is a \<open>string\<close>; a character stands for one code point below 256.
  \<open>isspace\<close> is \<open>str.isspace\<close> on that range: the characters that \<open>strip\<close> and
  \<open>lstrip\<close> remove when called without an argument.
\<close>

definition isspace :: "char \<Rightarrow> bool" where
  "isspace c = (c \<in> set [CHR 0x09, CHR 0x0A, CHR 0x0B, CHR 0x0C, CHR 0x0D,
                          CHR 0x1C, CHR 0x1D, CHR 0x1E, CHR 0x1F, CHR 0x20,
                          CHR 0x85, CHR 0xA0])"

definition lstrip :: "string \<Rightarrow> string" where
  "lstrip s = dropWhile isspace s"

definition rstrip :: "string \<Rightarrow> string" where
  "rstrip s = rev (dropWhile isspace (rev s))"

definition strip :: "string \<Rightarrow> string" where
  "strip s = rstrip (lstrip s)"

text \<open>\<open>len(line) - len(line.lstrip())\<close>, a Python int.\<close>

definition count_leading_spaces :: "string \<Rightarrow> int" where
  "count_leading_spaces line = int (length line) - int (length (lstrip line))"

text \<open>
  \<open>open(filename, "r")\<close> reads in text mode with universal newlines: a carriage return
  followed by a line feed, and a carriage return alone, both reach the program as one
  line feed.
\<close>

fun universal_newlines :: "string \<Rightarrow> string" where
  "universal_newlines [] = []"
| "universal_newlines [c] = (if c = CHR 0x0D then [CHR 0x0A] else [c])"
| "universal_newlines (c # d # cs) =
     (if c = CHR 0x0D
      then (if d = CHR 0x0A then CHR 0x0A # universal_newlines cs
            else CHR 0x0A # universal_newlines (d # cs))
      else c # universal_newlines (d # cs))"

text \<open>
  Iterating over the file yields the lines of the translated text, each with its
  terminating line feed; the last line has none when the text does not end in a line
  terminator. \<open>splitlines cur s\<close> carries the line read so far.
\<close>

fun splitlines :: "string \<Rightarrow> string \<Rightarrow> string list" where
  "splitlines cur [] = (if cur = [] then [] else [cur])"
| "splitlines cur (c # cs) =
     (if c = CHR 0x0A then (cur @ [c]) # splitlines [] cs else splitlines (cur @ [c]) cs)"

definition readlines :: "string \<Rightarrow> string list" where
  "readlines s = splitlines [] (universal_newlines s)"

text \<open>\<open>str(n)\<close> for a non-negative int: the decimal digits.\<close>

fun str_nat :: "nat \<Rightarrow> string" where
  "str_nat n =
     (if n < 10 then [char_of (48 + n)] else str_nat (n div 10) @ [char_of (48 + n mod 10)])"

declare str_nat.simps [simp del]

section \<open>The object store\<close>

text \<open>
  \<open>OrgNode\<close> objects live in a store, a list indexed by reference: an object is
  created by appending it, and \<open>children\<close> and \<open>parent\<close> hold references. The
  constructor strips the name.
\<close>

record OrgNode =
  name :: string
  children :: "nat list"
  parent :: "nat option"

type_synonym heap = "OrgNode list"

datatype error = FileNotFoundError | IndexError

definition OrgNode_init :: "string \<Rightarrow> OrgNode" where
  "OrgNode_init nm = \<lparr>name = strip nm, children = [], parent = None\<rparr>"

text \<open>\<open>self.children.append(child); child.parent = self\<close>\<close>

definition add_child :: "heap \<Rightarrow> nat \<Rightarrow> nat \<Rightarrow> heap" where
  "add_child h self child =
     (let h1 = h[self := (h ! self)\<lparr>children := children (h ! self) @ [child]\<rparr>]
      in h1[child := (h1 ! child)\<lparr>parent := Some self\<rparr>])"

section \<open>The parser\<close>

text \<open>
  The stack of \<open>(node, indent_level)\<close> pairs is a list whose head is the top
  (\<open>stack[-1]\<close>). \<open>pop_while\<close> is the loop
  \<open>while stack and stack[-1][1] >= indent: stack.pop()\<close>.
\<close>

type_synonym stack = "(nat \<times> int) list"

fun pop_while :: "stack \<Rightarrow> int \<Rightarrow> stack" where
  "pop_while [] indent = []"
| "pop_while ((n, d) # st) indent = (if d \<ge> indent then pop_while st indent else (n, d) # st)"

text \<open>
  One iteration of \<open>for line in f\<close>. \<open>stack[-1]\<close> on an empty stack raises
  \<open>IndexError\<close>.
\<close>

definition parse_line :: "heap \<times> stack \<Rightarrow> string \<Rightarrow> error + heap \<times> stack" where
  "parse_line s line =
     (case s of (h, stack) \<Rightarrow>
        if strip line = [] then Inr (h, stack)
        else
          let indent = count_leading_spaces line;
              node = length h;
              h1 = h @ [OrgNode_init (strip line)];
              stack1 = pop_while stack indent
          in (case stack1 of
                [] \<Rightarrow> Inl IndexError
              | (par, _) # _ \<Rightarrow> Inr (add_child h1 par node, (node, indent) # stack1)))"

fun parse_lines :: "heap \<times> stack \<Rightarrow> string list \<Rightarrow> error + heap \<times> stack" where
  "parse_lines s [] = Inr s"
| "parse_lines s (line # ls) =
     (case parse_line s line of Inl e \<Rightarrow> Inl e | Inr s' \<Rightarrow> parse_lines s' ls)"

text \<open>
  The file system maps a path to the text of the file. \<open>open\<close> raises
  \<open>FileNotFoundError\<close> on a path that does not exist. The result is the store and the
  reference to \<open>root\<close>.
\<close>

type_synonym filesystem = "string \<rightharpoonup> string"

definition parse_init :: "heap \<times> stack" where
  "parse_init = ([OrgNode_init ''Root''], [(0, - 1)])"

definition parse_org_file :: "filesystem \<Rightarrow> string \<Rightarrow> error + heap \<times> nat" where
  "parse_org_file fs filename =
     (case fs filename of
        None \<Rightarrow> Inl FileNotFoundError
      | Some content \<Rightarrow>
          (case parse_lines parse_init (readlines content) of
             Inl e \<Rightarrow> Inl e
           | Inr (h, stack) \<Rightarrow> Inr (h, 0)))"

section \<open>The renderers\<close>

text \<open>
  The renderers recurse over the store. The first argument bounds the depth of the
  recursion, as the interpreter's recursion limit does: \<open>None\<close> is the run that
  exceeds it. \<open>print\<close> appends one entry to the output stream, which the
  renderers take and return. \<open>for_each\<close> is a \<open>for\<close> loop whose body threads
  the state.
\<close>

fun for_each :: "('a \<Rightarrow> 's \<Rightarrow> 's option) \<Rightarrow> 'a list \<Rightarrow> 's \<Rightarrow> 's option" where
  "for_each body [] s = Some s"
| "for_each body (x # xs) s =
     (case body x s of None \<Rightarrow> None | Some s' \<Rightarrow> for_each body xs s')"

fun print_org_chart :: "nat \<Rightarrow> heap \<Rightarrow> nat \<Rightarrow> nat \<Rightarrow> string list \<Rightarrow> string list option" where
  "print_org_chart 0 h node level out = None"
| "print_org_chart (Suc fuel) h node level out =
     for_each (\<lambda>child out'. print_org_chart fuel h child (level + 1) out')
       (children (h ! node))
       (out @ [concat (replicate level ''  '') @ ''- '' @ name (h ! node)])"

fun print_reporting_relationships :: "nat \<Rightarrow> heap \<Rightarrow> nat \<Rightarrow> string list \<Rightarrow> string list option" where
  "print_reporting_relationships 0 h node out = None"
| "print_reporting_relationships (Suc fuel) h node out =
     for_each (\<lambda>child out'. print_reporting_relationships fuel h child out')
       (children (h ! node))
       (case parent (h ! node) of
          None \<Rightarrow> out
        | Some p \<Rightarrow>
            if name (h ! p) \<noteq> ''Root''
            then out @ [name (h ! node) @ '' reports to '' @ name (h ! p)]
            else out)"

text \<open>
  \<open>_print_mermaid_nodes\<close>. The counter is a one-element list shared by all the
  recursive calls: its value is passed in and returned. \<open>counter = None\<close> is the
  default argument, replaced by a fresh \<open>[0]\<close>.
\<close>

fun print_mermaid_nodes ::
  "nat \<Rightarrow> heap \<Rightarrow> nat \<Rightarrow> string option \<Rightarrow> nat option \<Rightarrow> string list \<Rightarrow> (nat \<times> string list) option"
where
  "print_mermaid_nodes 0 h node parent_id counter out = None"
| "print_mermaid_nodes (Suc fuel) h node parent_id counter out =
     (let counter0 = (case counter of None \<Rightarrow> 0 | Some c \<Rightarrow> c);
          current_id = ''n'' @ str_nat counter0;
          counter1 = counter0 + 1;
          out1 = out @ [[CHR 0x09] @ current_id @ ''['' @ [CHR 0x22] @ name (h ! node)
                          @ [CHR 0x22] @ '']''];
          out2 = (case parent_id of
                    None \<Rightarrow> out1
                  | Some pid \<Rightarrow> out1 @ [[CHR 0x09] @ pid @ '' --> '' @ current_id])
      in for_each (\<lambda>child s. case s of (c, out') \<Rightarrow>
                     print_mermaid_nodes fuel h child (Some current_id) (Some c) out')
           (children (h ! node)) (counter1, out2))"

definition print_mermaid_flowchart :: "nat \<Rightarrow> heap \<Rightarrow> nat \<Rightarrow> string list \<Rightarrow> string list option" where
  "print_mermaid_flowchart fuel h node out =
     (if name (h ! node) = ''Root'' \<and> children (h ! node) \<noteq> []
      then (case print_mermaid_nodes fuel h (hd (children (h ! node))) None None
                   (out @ [''```mermaid'', ''flowchart TB'']) of
              None \<Rightarrow> None
            | Some (c, out') \<Rightarrow> Some (out' @ [''```'']))
      else Some out)"

text \<open>
  The \<open>Digraph\<close> object records the calls \<open>dot.node(id, label)\<close> and
  \<open>dot.edge(tail, head)\<close> in order. \<open>node_ids\<close> is a dict, kept as an association
  list in insertion order with distinct keys; it is shared by all the recursive calls
  of \<open>add_nodes\<close>, and \<open>node_ids = None\<close> is the default argument, replaced by a
  fresh \<open>{}\<close>.
\<close>

record digraph =
  g_nodes :: "(string \<times> string) list"
  g_edges :: "(string \<times> string) list"

definition Digraph :: digraph where
  "Digraph = \<lparr>g_nodes = [], g_edges = []\<rparr>"

type_synonym dict = "(string \<times> string) list"

text \<open>\<open>if key not in node_ids: node_ids[key] = f"node_{len(node_ids)}"\<close>\<close>

definition assign_id :: "dict \<Rightarrow> string \<Rightarrow> dict" where
  "assign_id node_ids key =
     (if key \<notin> fst ` set node_ids
      then node_ids @ [(key, ''node_'' @ str_nat (length node_ids))]
      else node_ids)"

text \<open>\<open>node_ids[key]\<close>, for a key that is present.\<close>

definition lookup :: "dict \<Rightarrow> string \<Rightarrow> string" where
  "lookup node_ids key = the (map_of node_ids key)"

fun add_nodes ::
  "nat \<Rightarrow> heap \<Rightarrow> nat \<Rightarrow> dict option \<Rightarrow> digraph \<Rightarrow> (dict \<times> digraph) option"
where
  "add_nodes 0 h node node_ids dot = None"
| "add_nodes (Suc fuel) h node node_ids dot =
     (let ids = (case node_ids of None \<Rightarrow> [] | Some d \<Rightarrow> d)
      in if name (h ! node) = ''Root''
         then for_each (\<lambda>child s. case s of (ids', dot') \<Rightarrow>
                          add_nodes fuel h child (Some ids') dot')
                (children (h ! node)) (ids, dot)
         else
           let ids1 = assign_id ids (name (h ! node));
               current_id = lookup ids1 (name (h ! node));
               dot1 = dot\<lparr>g_nodes := g_nodes dot @ [(current_id, name (h ! node))]\<rparr>
           in for_each (\<lambda>child s. case s of (ids', dot') \<Rightarrow>
                          let ids2 = assign_id ids' (name (h ! child));
                              child_id = lookup ids2 (name (h ! child));
                              dot2 = dot'\<lparr>g_edges := g_edges dot' @ [(current_id, child_id)]\<rparr>
                          in add_nodes fuel h child (Some ids2) dot2)
                (children (h ! node)) (ids1, dot1))"

text \<open>
  \<open>generate_svg_chart\<close>. \<open>dot.render\<close> belongs to the graphviz library: it is
  taken to write the graph to \<open>output_file.svg\<close>, and the graph attributes set
  before \<open>add_nodes\<close> play no part in what is built.
\<close>

record world =
  files :: filesystem
  stdout :: "string list"
  stderr :: "string list"
  rendered :: "(string \<times> digraph) list"

definition generate_svg_chart :: "nat \<Rightarrow> heap \<Rightarrow> nat \<Rightarrow> string \<Rightarrow> world \<Rightarrow> (string \<times> world) option" where
  "generate_svg_chart fuel h node output_file w =
     (case add_nodes fuel h node None Digraph of
        None \<Rightarrow> None
      | Some (ids, dot) \<Rightarrow>
          Some (output_file @ ''.svg'',
                w\<lparr>rendered := rendered w @ [(output_file @ ''.svg'', dot)]\<rparr>))"

section \<open>The driver\<close>

text \<open>
  \<open>parse_args\<close> yields the file name and the format, one of the four choices or
  none. A run of \<open>main\<close> returns or ends in an uncaught exception, and leaves a
  world; \<open>None\<close> is a run that exceeds the recursion limit in a renderer.
\<close>

datatype fmt = Tree | Visio | Mermaid | Svg

record args =
  filename :: string
  format :: "fmt option"

datatype outcome = Returned | Raised error

text \<open>\<open>root.children[0]\<close>\<close>

definition first_child :: "heap \<Rightarrow> nat \<Rightarrow> error + nat" where
  "first_child h node = (case children (h ! node) of [] \<Rightarrow> Inl IndexError | c # _ \<Rightarrow> Inr c)"

definition not_found_message :: "string \<Rightarrow> string list" where
  "not_found_message fn =
     [''Error: '' @ fn @ '' not found. Please create a text file with your organization structure.'',
      ''Each line should represent a resource, with indentation showing reporting relationships.'']"

definition run_tree :: "nat \<Rightarrow> heap \<Rightarrow> nat \<Rightarrow> world \<Rightarrow> (outcome \<times> world) option" where
  "run_tree fuel h root w =
     (case first_child h root of
        Inl e \<Rightarrow> Some (Raised e, w)
      | Inr c \<Rightarrow>
          (case print_org_chart fuel h c 0 (stdout w) of
             None \<Rightarrow> None
           | Some out \<Rightarrow> Some (Returned, w\<lparr>stdout := out\<rparr>)))"

definition run_visio :: "nat \<Rightarrow> heap \<Rightarrow> nat \<Rightarrow> world \<Rightarrow> (outcome \<times> world) option" where
  "run_visio fuel h root w =
     (case first_child h root of
        Inl e \<Rightarrow> Some (Raised e, w)
      | Inr c \<Rightarrow>
          (case print_reporting_relationships fuel h c (stdout w) of
             None \<Rightarrow> None
           | Some out \<Rightarrow> Some (Returned, w\<lparr>stdout := out\<rparr>)))"

definition run_mermaid :: "nat \<Rightarrow> heap \<Rightarrow> nat \<Rightarrow> world \<Rightarrow> (outcome \<times> world) option" where
  "run_mermaid fuel h root w =
     (case print_mermaid_flowchart fuel h root (stdout w) of
        None \<Rightarrow> None
      | Some out \<Rightarrow> Some (Returned, w\<lparr>stdout := out\<rparr>))"

text \<open>
  \<open>svg_file = generate_svg_chart(root.children[0])\<close> followed by the print of the
  path, to the stream given.
\<close>

definition run_svg :: "bool \<Rightarrow> nat \<Rightarrow> heap \<Rightarrow> nat \<Rightarrow> world \<Rightarrow> (outcome \<times> world) option" where
  "run_svg to_stderr fuel h root w =
     (case first_child h root of
        Inl e \<Rightarrow> Some (Raised e, w)
      | Inr c \<Rightarrow>
          (case generate_svg_chart fuel h c ''org_chart'' w of
             None \<Rightarrow> None
           | Some (svg_file, w') \<Rightarrow>
               Some (Returned,
                     if to_stderr
                     then w'\<lparr>stderr := stderr w' @ [''SVG file generated: '' @ svg_file]\<rparr>
                     else w'\<lparr>stdout := stdout w' @ [''SVG file generated: '' @ svg_file]\<rparr>)))"

text \<open>Sequencing: the next statement runs only when the one before returned.\<close>

definition and_then ::
  "(outcome \<times> world) option \<Rightarrow> (world \<Rightarrow> (outcome \<times> world) option) \<Rightarrow> (outcome \<times> world) option"
where
  "and_then r k =
     (case r of
        None \<Rightarrow> None
      | Some (Returned, w) \<Rightarrow> k w
      | Some (Raised e, w) \<Rightarrow> Some (Raised e, w))"

definition eprint :: "string \<Rightarrow> world \<Rightarrow> world" where
  "eprint s w = w\<lparr>stderr := stderr w @ [s]\<rparr>"

definition main :: "nat \<Rightarrow> world \<Rightarrow> args \<Rightarrow> (outcome \<times> world) option" where
  "main fuel w a =
     (case parse_org_file (files w) (filename a) of
        Inl FileNotFoundError \<Rightarrow>
          Some (Returned, w\<lparr>stdout := stdout w @ not_found_message (filename a)\<rparr>)
      | Inl e \<Rightarrow> Some (Raised e, w)
      | Inr (h, root) \<Rightarrow>
          (case format a of
             None \<Rightarrow>
               and_then (run_tree fuel h root (eprint ''Organization Chart'' w))
                 (\<lambda>w1. and_then
                    (run_visio fuel h root
                       (eprint (CHR 0x0A # ''Reporting Relationships (for Visio import)'') w1))
                 (\<lambda>w2. and_then
                    (run_mermaid fuel h root (eprint (CHR 0x0A # ''Mermaid Flowchart'') w2))
                 (\<lambda>w3. run_svg True fuel h root (eprint (CHR 0x0A # ''Generating SVG...'') w3))))
           | Some Tree \<Rightarrow> run_tree fuel h root w
           | Some Visio \<Rightarrow> run_visio fuel h root w
           | Some Mermaid \<Rightarrow> run_mermaid fuel h root w
           | Some Svg \<Rightarrow> run_svg False fuel h root w))"

section \<open>The tree held by the store\<close>

text \<open>
  The tree below a node, read off the store: a rose tree of references.
  \<open>tree_of\<close> follows the \<open>children\<close> lists, to a bounded depth.
\<close>

datatype 'a rtree = RNode 'a "'a rtree list"

fun root_of :: "'a rtree \<Rightarrow> 'a" where
  "root_of (RNode x ts) = x"

fun preorder :: "'a rtree \<Rightarrow> 'a list" where
  "preorder (RNode x ts) = x # concat (map preorder ts)"

text \<open>The edges \<open>(parent, child)\<close>, each where the pre-order walk reaches the child.\<close>

fun edges :: "'a rtree \<Rightarrow> ('a \<times> 'a) list" where
  "edges (RNode x ts) = concat (map (\<lambda>t. (x, root_of t) # edges t) ts)"

fun height :: "'a rtree \<Rightarrow> nat" where
  "height (RNode x ts) = Suc (fold max (map height ts) 0)"

fun tree_of :: "nat \<Rightarrow> heap \<Rightarrow> nat \<Rightarrow> nat rtree option" where
  "tree_of 0 h n = None"
| "tree_of (Suc fuel) h n =
     (if n < length h
      then map_option (RNode n) (those (map (\<lambda>c. tree_of fuel h c) (children (h ! n))))
      else None)"

text \<open>
  \<open>is_tree h t\<close>: the store holds the tree \<open>t\<close> at the reference \<open>root_of t\<close>, with
  the \<open>parent\<close> field of every child set to the node above it.
\<close>

fun is_tree :: "heap \<Rightarrow> nat rtree \<Rightarrow> bool" where
  "is_tree h (RNode i ts) =
     (i < length h \<and> children (h ! i) = map root_of ts \<and>
      (\<forall>t \<in> set ts. is_tree h t \<and> parent (h ! root_of t) = Some i))"

text \<open>The rightmost path of a tree, from its root down through the last children.\<close>

function spine :: "'a rtree \<Rightarrow> 'a list" where
  "spine (RNode x ts) = x # (if ts = [] then [] else spine (last ts))"
  by pat_completeness auto
termination
proof (relation "measure size")
  show "wf (measure size)" by simp
next
  fix x :: 'a and ts :: "'a rtree list"
  assume "ts \<noteq> []"
  then have "last ts \<in> set ts" by simp
  then have "size (last ts) \<le> size_list size ts" by (rule size_list_estimation') simp
  then show "(last ts, RNode x ts) \<in> measure size" by simp
qed

text \<open>\<open>attach k t' t\<close> hangs \<open>t'\<close> below the node at depth \<open>k\<close> of the rightmost path, as its last child.\<close>

fun attach :: "nat \<Rightarrow> 'a rtree \<Rightarrow> 'a rtree \<Rightarrow> 'a rtree" where
  "attach 0 t' (RNode x ts) = RNode x (ts @ [t'])"
| "attach (Suc k) t' (RNode x ts) =
     (if ts = [] then RNode x ts else RNode x (butlast ts @ [attach k t' (last ts)]))"

section \<open>The lines of a file and their indentation\<close>

text \<open>The lines that the parser does not skip.\<close>

definition nonblank :: "string list \<Rightarrow> string list" where
  "nonblank ls = filter (\<lambda>l. strip l \<noteq> []) ls"

text \<open>
  The store holds the root at reference 0 and the node of the \<open>i\<close>-th non-blank line at
  reference \<open>i\<close>, counting lines from 1. \<open>indent_at nb i\<close> is the indentation pushed on the
  stack with node \<open>i\<close>.
\<close>

definition indent_at :: "string list \<Rightarrow> nat \<Rightarrow> int" where
  "indent_at nb i = (if i = 0 then - 1 else count_leading_spaces (nb ! (i - 1)))"

text \<open>
  The invariant of the loop of the parser, after the non-blank lines \<open>nb\<close>: the store
  holds a tree \<open>T\<close> at the root, whose pre-order walk is the references in the order of
  their creation; the stack is the rightmost path of \<open>T\<close>, top first, each node with
  its indentation; the names are those of the lines; every node but the root has a
  parent of smaller indentation.
\<close>

definition inv :: "string list \<Rightarrow> nat rtree \<Rightarrow> heap \<times> stack \<Rightarrow> bool" where
  "inv nb T s =
     (case s of (h, st) \<Rightarrow>
        is_tree h T \<and> root_of T = 0 \<and> preorder T = [0..<length h] \<and>
        map fst st = rev (spine T) \<and>
        map name h = ''Root'' # map strip nb \<and>
        (\<forall>e \<in> set st. snd e = indent_at nb (fst e)) \<and>
        parent (h ! 0) = None \<and>
        (\<forall>i < length h. 0 < i \<longrightarrow>
           (\<exists>p. parent (h ! i) = Some p \<and> p < i \<and> indent_at nb p < indent_at nb i)))"

section \<open>Sample inputs\<close>

text \<open>The five-line hierarchy of the specification's first scenario, as the file \<open>org.txt\<close>.\<close>

definition sample_text :: string where
  "sample_text =
     ''CEO\<newline>  VP Sales\<newline>    Sales Rep 1\<newline>  VP Engineering\<newline>    Engineer 1\<newline>''"

definition sample_fs :: filesystem where
  "sample_fs = [''org.txt'' \<mapsto> sample_text]"

text \<open>A file of blank lines only, and worlds with nothing printed yet.\<close>

definition blank_fs :: filesystem where
  "blank_fs = [''blank.txt'' \<mapsto> ''  \<newline>\<newline>'']"

definition blank_world :: world where
  "blank_world = \<lparr>files = blank_fs, stdout = [], stderr = [], rendered = []\<rparr>"

definition sample_world :: world where
  "sample_world = \<lparr>files = sample_fs, stdout = [], stderr = [], rendered = []\<rparr>"

text \<open>The store that \<open>parse_org_file\<close> builds from the sample, and a file of two top-level entries.\<close>

definition sample_heap :: heap where
  "sample_heap =
     [\<lparr>name = ''Root'', children = [1], parent = None\<rparr>,
      \<lparr>name = ''CEO'', children = [2, 4], parent = Some 0\<rparr>,
      \<lparr>name = ''VP Sales'', children = [3], parent = Some 1\<rparr>,
      \<lparr>name = ''Sales Rep 1'', children = [], parent = Some 2\<rparr>,
      \<lparr>name = ''VP Engineering'', children = [5], parent = Some 1\<rparr>,
      \<lparr>name = ''Engineer 1'', children = [], parent = Some 4\<rparr>]"

definition two_fs :: filesystem where
  "two_fs = [''two.txt'' \<mapsto> ''A\<newline>B\<newline>'']"

definition two_heap :: heap where
  "two_heap =
     [\<lparr>name = ''Root'', children = [1, 2], parent = None\<rparr>,
      \<lparr>name = ''A'', children = [], parent = Some 0\<rparr>,
      \<lparr>name = ''B'', children = [], parent = Some 0\<rparr>]"

text \<open>
  A file whose first line ends in a carriage return alone, and one with a carriage
  return at the start of its last line, with the stores parsed from them.
\<close>

definition cr_fs :: filesystem where
  "cr_fs =
     [''cr.txt'' \<mapsto> [CHR ''A'', CHR 0x0D, CHR '' '', CHR ''B'', CHR 0x0A],
      ''cr2.txt'' \<mapsto> ''A\<newline> B\<newline>'' @ [CHR 0x0D] @ '' C\<newline>'']"

definition cr_heap :: heap where
  "cr_heap =
     [\<lparr>name = ''Root'', children = [1], parent = None\<rparr>,
      \<lparr>name = ''A'', children = [2], parent = Some 0\<rparr>,
      \<lparr>name = ''B'', children = [], parent = Some 1\<rparr>]"

definition cr2_heap :: heap where
  "cr2_heap =
     [\<lparr>name = ''Root'', children = [1], parent = None\<rparr>,
      \<lparr>name = ''A'', children = [2, 3], parent = Some 0\<rparr>,
      \<lparr>name = ''B'', children = [], parent = Some 1\<rparr>,
      \<lparr>name = ''C'', children = [], parent = Some 1\<rparr>]"

text \<open>A file with an entry whose text is \<open>Root\<close>, and the store parsed from it.\<close>

definition named_root_fs :: filesystem where
  "named_root_fs = [''named.txt'' \<mapsto> ''A\<newline>  Root\<newline>    B\<newline>'']"

definition named_root_heap :: heap where
  "named_root_heap =
     [\<lparr>name = ''Root'', children = [1], parent = None\<rparr>,
      \<lparr>name = ''A'', children = [2], parent = Some 0\<rparr>,
      \<lparr>name = ''Root'', children = [3], parent = Some 1\<rparr>,
      \<lparr>name = ''B'', children = [], parent = Some 2\<rparr>]"

section \<open>What the renderers print\<close>

text \<open>
  What the renderers print, as functions of the tree. \<open>listing\<close> is the indented
  listing of a tree of names, \<open>report_lines\<close> the reports-to lines of a list of edges.
\<close>

fun listing :: "nat \<Rightarrow> string rtree \<Rightarrow> string list" where
  "listing level (RNode nm ts) =
     (concat (replicate level ''  '') @ ''- '' @ nm) # concat (map (listing (Suc level)) ts)"

definition names_of :: "heap \<Rightarrow> nat rtree \<Rightarrow> string rtree" where
  "names_of h t = map_rtree (\<lambda>i. name (h ! i)) t"

definition report_line :: "heap \<Rightarrow> nat \<times> nat \<Rightarrow> string" where
  "report_line h e = name (h ! snd e) @ '' reports to '' @ name (h ! fst e)"

definition report_lines :: "heap \<Rightarrow> (nat \<times> nat) list \<Rightarrow> string list" where
  "report_lines h es = map (report_line h) (filter (\<lambda>e. name (h ! fst e) \<noteq> ''Root'') es)"

definition own_report :: "heap \<Rightarrow> nat \<Rightarrow> string list" where
  "own_report h i =
     (case parent (h ! i) of None \<Rightarrow> [] | Some p \<Rightarrow> report_lines h [(p, i)])"

text \<open>
  The lines of the Mermaid block. \<open>mermaid_node h r c i\<close> is the pair of lines of a node
  \<open>i\<close> other than the first, in a walk that starts at the reference \<open>r\<close> with the
  counter at \<open>c\<close>: the nodes of the walk have consecutive references, so node \<open>i\<close>
  is the one numbered \<open>c + (i - r)\<close>.
\<close>

definition mermaid_id :: "nat \<Rightarrow> string" where
  "mermaid_id k = ''n'' @ str_nat k"

definition mermaid_decl :: "nat \<Rightarrow> string \<Rightarrow> string" where
  "mermaid_decl k nm = [CHR 0x09] @ mermaid_id k @ ''['' @ [CHR 0x22] @ nm @ [CHR 0x22] @ '']''"

definition mermaid_edge :: "string \<Rightarrow> nat \<Rightarrow> string" where
  "mermaid_edge pid k = [CHR 0x09] @ pid @ '' --> '' @ mermaid_id k"

definition mermaid_node :: "heap \<Rightarrow> nat \<Rightarrow> nat \<Rightarrow> nat \<Rightarrow> string list" where
  "mermaid_node h r c i =
     [mermaid_decl (c + (i - r)) (name (h ! i)),
      mermaid_edge (mermaid_id (c + (the (parent (h ! i)) - r))) (c + (i - r))]"

text \<open>
  The listing written to a file: every printed line is followed by a newline.
  \<open>dashed\<close> is the tree read back from it, whose names carry the prefix of the listing.
\<close>

definition written :: "string list \<Rightarrow> string" where
  "written out = concat (map (\<lambda>l. l @ [CHR 0x0A]) out)"

definition dashed :: "string rtree \<Rightarrow> string rtree" where
  "dashed t = map_rtree (\<lambda>nm. ''- '' @ nm) t"

definition clean :: "string \<Rightarrow> bool" where
  "clean nm =
     (nm \<noteq> [] \<and> \<not> isspace (last nm) \<and> CHR 0x0A \<notin> set nm \<and> CHR 0x0D \<notin> set nm)"

text \<open>The lines of a listing, as the file iterator yields them.\<close>

definition listed :: "nat \<Rightarrow> string rtree \<Rightarrow> string list" where
  "listed level u = map (\<lambda>l. l @ [CHR 0x0A]) (listing level u)"

text \<open>
  What the image renderer builds, as functions of the tree. \<open>assign_all\<close> is the dict
  after the names of a list of nodes have been given identifiers in order;
  \<open>vertex_calls\<close> and \<open>edge_calls\<close> are the calls of \<open>dot.node\<close> for a list of nodes
  and of \<open>dot.edge\<close> for a list of edges, with the identifiers of a dict.
\<close>

definition assign_all :: "heap \<Rightarrow> nat list \<Rightarrow> dict \<Rightarrow> dict" where
  "assign_all h is ids = fold (\<lambda>i d. assign_id d (name (h ! i))) is ids"

definition vertex_calls :: "dict \<Rightarrow> heap \<Rightarrow> nat list \<Rightarrow> (string \<times> string) list" where
  "vertex_calls ids h is = map (\<lambda>i. (lookup ids (name (h ! i)), name (h ! i))) is"

definition edge_calls :: "dict \<Rightarrow> heap \<Rightarrow> (nat \<times> nat) list \<Rightarrow> (string \<times> string) list" where
  "edge_calls ids h es =
     map (\<lambda>e. (lookup ids (name (h ! fst e)), lookup ids (name (h ! snd e)))) es"

definition dict_ok :: "dict \<Rightarrow> bool" where
  "dict_ok ids =
     (distinct (map fst ids) \<and>
      map snd ids = map (\<lambda>k. ''node_'' @ str_nat k) [0..<length ids])"

definition with_calls :: "digraph \<Rightarrow> (string \<times> string) list \<Rightarrow> (string \<times> string) list \<Rightarrow> digraph" where
  "with_calls dot vs es = dot\<lparr>g_nodes := g_nodes dot @ vs, g_edges := g_edges dot @ es\<rparr>"

section \<open>The stack and the rightmost path\<close>

lemma count_leading_spaces_nonneg: "0 \<le> count_leading_spaces line"
  by (simp add: count_leading_spaces_def lstrip_def length_dropWhile_le)

lemma pop_while_dropWhile: "pop_while st d = dropWhile (\<lambda>e. snd e \<ge> d) st"
  by (induction st d rule: pop_while.induct) auto

lemma pop_while_split:
  "\<exists>pre. st = pre @ pop_while st d \<and> (\<forall>e \<in> set pre. snd e \<ge> d)"
proof -
  have "st = takeWhile (\<lambda>e. snd e \<ge> d) st @ pop_while st d"
    by (simp add: pop_while_dropWhile)
  moreover have "\<forall>e \<in> set (takeWhile (\<lambda>e. snd e \<ge> d) st). snd e \<ge> d"
    by (auto dest: set_takeWhileD)
  ultimately show ?thesis by blast
qed

lemma pop_while_hd: "pop_while st d \<noteq> [] \<Longrightarrow> snd (hd (pop_while st d)) < d"
  using hd_dropWhile [of "\<lambda>e. snd e \<ge> d" st] by (simp add: pop_while_dropWhile)

lemma pop_while_nonempty:
  "st \<noteq> [] \<Longrightarrow> snd (last st) < d \<Longrightarrow> pop_while st d \<noteq> [] \<and> last (pop_while st d) = last st"
  by (induction st d rule: pop_while.induct) auto

lemma root_of_attach [simp]: "root_of (attach k t' t) = root_of t"
  by (cases t; cases k) auto

lemma spine_nonempty [simp]: "spine t \<noteq> []"
  by (cases t) auto

lemma hd_spine [simp]: "hd (spine t) = root_of t"
  by (cases t) auto

lemma spine_attach:
  "k < length (spine t) \<Longrightarrow> spine (attach k t' t) = take (Suc k) (spine t) @ spine t'"
proof (induction k arbitrary: t)
  case 0
  then show ?case by (cases t) auto
next
  case (Suc k)
  then show ?case by (cases t) (auto split: if_splits)
qed

lemma preorder_attach:
  "k < length (spine t) \<Longrightarrow> preorder (attach k t' t) = preorder t @ preorder t'"
proof (induction k arbitrary: t)
  case 0
  then show ?case by (cases t) auto
next
  case (Suc k)
  obtain x ts where t: "t = RNode x ts" by (cases t)
  with Suc.prems have ne: "ts \<noteq> []" by (auto split: if_splits)
  then have ts: "ts = butlast ts @ [last ts]" by simp
  from Suc.prems t ne have "k < length (spine (last ts))" by simp
  then have IH: "preorder (attach k t' (last ts)) = preorder (last ts) @ preorder t'"
    by (rule Suc.IH)
  have "concat (map preorder ts) = concat (map preorder (butlast ts)) @ preorder (last ts)"
    by (subst ts) simp
  with IH t ne show ?case by simp
qed


lemma root_in_preorder [simp]: "root_of t \<in> set (preorder t)"
  by (cases t) simp

lemma spine_subset: "set (spine t) \<subseteq> set (preorder t)"
proof (induction t rule: spine.induct)
  case (1 x ts)
  show ?case
  proof (cases "ts = []")
    case True
    then show ?thesis by simp
  next
    case False
    then have "last ts \<in> set ts" by simp
    with 1 False show ?thesis by auto
  qed
qed

lemma is_tree_agree:
  "is_tree h t \<Longrightarrow> (\<forall>i \<in> set (preorder t). i < length h' \<and> h' ! i = h ! i) \<Longrightarrow> is_tree h' t"
proof (induction t)
  case (RNode x ts)
  have "is_tree h' t \<and> parent (h' ! root_of t) = Some x" if "t \<in> set ts" for t
  proof -
    from that RNode.prems have sub: "\<forall>i \<in> set (preorder t). i < length h' \<and> h' ! i = h ! i"
      by auto
    from that RNode.prems(1) have "is_tree h t" "parent (h ! root_of t) = Some x" by auto
    moreover from sub have "h' ! root_of t = h ! root_of t" by simp
    ultimately show ?thesis using RNode.IH [OF that _ sub] by simp
  qed
  moreover from RNode.prems have "x < length h'" "children (h' ! x) = map root_of ts" by auto
  ultimately show ?case by simp
qed

lemma add_child_length [simp]: "length (add_child h s n) = length h"
  by (simp add: add_child_def Let_def)

lemma add_child_other:
  "i \<noteq> s \<Longrightarrow> i \<noteq> n \<Longrightarrow> add_child h s n ! i = h ! i"
  by (simp add: add_child_def Let_def)

lemma add_child_self:
  "s < length h \<Longrightarrow> s \<noteq> n \<Longrightarrow>
   add_child h s n ! s = (h ! s)\<lparr>children := children (h ! s) @ [n]\<rparr>"
  by (simp add: add_child_def Let_def)

lemma add_child_child:
  "n < length h \<Longrightarrow> s \<noteq> n \<Longrightarrow> add_child h s n ! n = (h ! n)\<lparr>parent := Some s\<rparr>"
  by (simp add: add_child_def Let_def)

lemma is_tree_attach:
  assumes "is_tree h t" and "distinct (preorder t)" and "\<forall>i \<in> set (preorder t). i < length h"
    and "k < length (spine t)" and "children nd = []"
  shows "is_tree (add_child (h @ [nd]) (spine t ! k) (length h)) (attach k (RNode (length h) []) t)"
  using assms(1-4)
proof (induction k arbitrary: t)
  case 0
  obtain x ts where t: "t = RNode x ts" by (cases t)
  let ?n = "length h"
  let ?h' = "add_child (h @ [nd]) x ?n"
  from 0 t have x: "x < ?n" by simp
  have agree: "?h' ! i = h ! i" if "i < ?n" "i \<noteq> x" for i
    using that by (simp add: add_child_other nth_append)
  have hx: "?h' ! x = (h ! x)\<lparr>children := children (h ! x) @ [?n]\<rparr>"
    using x by (simp add: add_child_self nth_append)
  have hn: "?h' ! ?n = nd\<lparr>parent := Some x\<rparr>"
    using x by (simp add: add_child_child)
  have sub: "is_tree ?h' u \<and> parent (?h' ! root_of u) = Some x" if "u \<in> set ts" for u
  proof -
    from that 0 t have u: "is_tree h u" "parent (h ! root_of u) = Some x" by auto
    from that 0(2,3) t have "\<forall>i \<in> set (preorder u). i < ?n \<and> i \<noteq> x" by auto
    then have a: "\<forall>i \<in> set (preorder u). i < length ?h' \<and> ?h' ! i = h ! i"
      using agree by auto
    from a have "?h' ! root_of u = h ! root_of u" by simp
    with u is_tree_agree [OF u(1) a] show ?thesis by simp
  qed
  from 0 t have "children (h ! x) = map root_of ts" by simp
  with hx hn x sub assms(5) t show ?case by simp
next
  case (Suc k)
  obtain x ts where t: "t = RNode x ts" by (cases t)
  with Suc.prems have ne: "ts \<noteq> []" by (auto split: if_splits)
  then have ts: "ts = butlast ts @ [last ts]" by simp
  let ?n = "length h"
  let ?l = "last ts"
  let ?s = "spine ?l ! k"
  let ?h' = "add_child (h @ [nd]) ?s ?n"
  from ne have lin: "?l \<in> set ts" by simp
  from Suc.prems t ne have k: "k < length (spine ?l)" by simp
  then have "?s \<in> set (spine ?l)" by simp
  then have sl: "?s \<in> set (preorder ?l)" using spine_subset [of ?l] by auto
  with lin Suc.prems(3) t have sn: "?s < ?n" by auto
  from Suc.prems(2) t have dx: "x \<notin> set (concat (map preorder ts))"
    and dc: "distinct (concat (map preorder ts))" by auto
  from sl lin dx have sx: "?s \<noteq> x" by auto
  from Suc.prems t have x: "x < ?n" by simp
  have agree: "?h' ! i = h ! i" if "i < ?n" "i \<noteq> ?s" for i
    using that by (simp add: add_child_other nth_append)
  have dl: "distinct (preorder ?l)"
    using dc lin by (metis distinct_concat_iff imageI list.set_map)
  have disj: "?s \<notin> set (preorder u)" if "u \<in> set (butlast ts)" for u
  proof -
    have "concat (map preorder ts) = concat (map preorder (butlast ts)) @ preorder ?l"
      by (subst ts) simp
    with dc have "set (concat (map preorder (butlast ts))) \<inter> set (preorder ?l) = {}"
      by simp
    with sl that show ?thesis by auto
  qed
  have IH: "is_tree ?h' (attach k (RNode ?n []) ?l)"
  proof (rule Suc.IH)
    show "is_tree h ?l" using Suc.prems(1) t lin by auto
    show "distinct (preorder ?l)" by (rule dl)
    show "\<forall>i \<in> set (preorder ?l). i < ?n" using Suc.prems(3) t lin by auto
    show "k < length (spine ?l)" by (rule k)
  qed
  have old: "is_tree ?h' u \<and> parent (?h' ! root_of u) = Some x" if "u \<in> set (butlast ts)" for u
  proof -
    from that have uin: "u \<in> set ts" by (rule in_set_butlastD)
    with Suc.prems t have u: "is_tree h u" "parent (h ! root_of u) = Some x" by auto
    from uin Suc.prems(3) t disj [OF that]
    have "\<forall>i \<in> set (preorder u). i < ?n \<and> i \<noteq> ?s" by auto
    then have a: "\<forall>i \<in> set (preorder u). i < length ?h' \<and> ?h' ! i = h ! i"
      using agree by auto
    from a have "?h' ! root_of u = h ! root_of u" by simp
    with u is_tree_agree [OF u(1) a] show ?thesis by simp
  qed
  have rl: "root_of ?l < ?n" using Suc.prems(3) t lin by auto
  have prl: "parent (?h' ! root_of ?l) = Some x"
  proof (cases "root_of ?l = ?s")
    case True
    with sn Suc.prems(1) t lin show ?thesis
      by (auto simp: add_child_self nth_append)
  next
    case False
    with rl agree Suc.prems(1) t lin show ?thesis by auto
  qed
  have cx: "children (?h' ! x) = map root_of ts"
    using agree [OF x] sx Suc.prems(1) t by auto
  have "map root_of (butlast ts @ [attach k (RNode ?n []) ?l]) = map root_of (butlast ts @ [?l])"
    by simp
  also have "\<dots> = map root_of ts" using ts by simp
  finally have mr: "map root_of (butlast ts @ [attach k (RNode ?n []) ?l]) = map root_of ts" .
  have "is_tree ?h' (RNode x (butlast ts @ [attach k (RNode ?n []) ?l]))"
    using x cx mr IH old prl by (auto simp del: map_append)
  with t ne show ?case by simp
qed


section \<open>Stripping\<close>

lemma lstrip_id: "s = [] \<or> \<not> isspace (hd s) \<Longrightarrow> lstrip s = s"
  by (cases s) (auto simp: lstrip_def)

lemma rstrip_id: "s = [] \<or> \<not> isspace (last s) \<Longrightarrow> rstrip s = s"
proof (cases "s = []")
  case True
  then show ?thesis by (simp add: rstrip_def)
next
  case False
  assume "s = [] \<or> \<not> isspace (last s)"
  with False have "\<not> isspace (hd (rev s))" by (simp add: hd_rev)
  with False have "dropWhile isspace (rev s) = rev s" by (cases "rev s") auto
  then show ?thesis by (simp add: rstrip_def)
qed

lemma hd_lstrip: "lstrip s \<noteq> [] \<Longrightarrow> \<not> isspace (hd (lstrip s))"
  unfolding lstrip_def by (rule hd_dropWhile)

lemma last_rstrip: "rstrip s \<noteq> [] \<Longrightarrow> \<not> isspace (last (rstrip s))"
  using hd_dropWhile [of isspace "rev s"] by (simp add: rstrip_def last_rev)

lemma rstrip_prefix: "\<exists>sp. s = rstrip s @ sp \<and> (\<forall>c \<in> set sp. isspace c)"
proof -
  have "s = rev (takeWhile isspace (rev s) @ dropWhile isspace (rev s))"
    by (simp only: takeWhile_dropWhile_id rev_rev_ident)
  then have "s = rstrip s @ rev (takeWhile isspace (rev s))"
    by (simp only: rev_append rstrip_def)
  moreover have "\<forall>c \<in> set (rev (takeWhile isspace (rev s))). isspace c"
    by (auto dest: set_takeWhileD)
  ultimately show ?thesis by blast
qed

lemma hd_rstrip: "rstrip s \<noteq> [] \<Longrightarrow> hd (rstrip s) = hd s"
proof -
  assume ne: "rstrip s \<noteq> []"
  obtain sp where "s = rstrip s @ sp" using rstrip_prefix by blast
  then have "hd s = hd (rstrip s @ sp)" by simp
  with ne show ?thesis by simp
qed

lemma hd_strip: "strip s \<noteq> [] \<Longrightarrow> \<not> isspace (hd (strip s))"
proof -
  assume ne: "strip s \<noteq> []"
  then have "lstrip s \<noteq> []" by (auto simp: strip_def rstrip_def)
  with ne show ?thesis using hd_lstrip [of s] hd_rstrip [of "lstrip s"] by (simp add: strip_def)
qed

lemma last_strip: "strip s \<noteq> [] \<Longrightarrow> \<not> isspace (last (strip s))"
  unfolding strip_def by (rule last_rstrip)

lemma strip_id: "s = [] \<or> (\<not> isspace (hd s) \<and> \<not> isspace (last s)) \<Longrightarrow> strip s = s"
  by (auto simp: strip_def lstrip_id rstrip_id)

lemma strip_strip [simp]: "strip (strip s) = strip s"
  by (rule strip_id) (use hd_strip last_strip in blast)

section \<open>One step of the parser\<close>

lemma name_add_child [simp]: "name (add_child h s c ! i) = name (h ! i)"
  by (cases "s < length h"; cases "c < length h"; cases "i = s"; cases "i = c")
    (auto simp: add_child_def Let_def nth_list_update list_update_beyond not_less)

lemma parent_add_child: "i \<noteq> c \<Longrightarrow> parent (add_child h s c ! i) = parent (h ! i)"
  by (cases "s < length h"; cases "i = s")
    (auto simp: add_child_def Let_def nth_list_update list_update_beyond not_less)

lemma map_name_add_child [simp]: "map name (add_child h s c) = map name h"
  by (rule nth_equalityI) simp_all

lemma indent_at_append: "i \<le> length nb \<Longrightarrow> indent_at (nb @ [l]) i = indent_at nb i"
  by (auto simp: indent_at_def nth_append)

lemma indent_at_new: "indent_at (nb @ [l]) (Suc (length nb)) = count_leading_spaces l"
  by (simp add: indent_at_def)

lemma inv_step:
  assumes I: "inv nb T (h, st)" and ne: "strip line \<noteq> []"
  shows "pop_while st (count_leading_spaces line) \<noteq> [] \<and>
         parse_line (h, st) line =
           Inr (add_child (h @ [OrgNode_init (strip line)])
                  (fst (hd (pop_while st (count_leading_spaces line)))) (length h),
                (length h, count_leading_spaces line) # pop_while st (count_leading_spaces line)) \<and>
         inv (nb @ [line])
           (attach (length (pop_while st (count_leading_spaces line)) - 1) (RNode (length h) []) T)
           (add_child (h @ [OrgNode_init (strip line)])
                  (fst (hd (pop_while st (count_leading_spaces line)))) (length h),
            (length h, count_leading_spaces line) # pop_while st (count_leading_spaces line))"
proof -
  define d where "d = count_leading_spaces line"
  define st1 where "st1 = pop_while st d"
  define n where "n = length h"
  define k where "k = length st1 - 1"
  define s where "s = fst (hd st1)"
  define nd where "nd = OrgNode_init (strip line)"
  define h' where "h' = add_child (h @ [nd]) s n"
  from I have tree: "is_tree h T" and root: "root_of T = 0" and pre: "preorder T = [0..<n]"
    and stk: "map fst st = rev (spine T)" and names: "map name h = ''Root'' # map strip nb"
    and ind: "\<forall>e \<in> set st. snd e = indent_at nb (fst e)" and p0: "parent (h ! 0) = None"
    and par: "\<forall>i < n. 0 < i \<longrightarrow> (\<exists>p. parent (h ! i) = Some p \<and> p < i \<and> indent_at nb p < indent_at nb i)"
    by (auto simp: inv_def n_def)
  from names have "length (map name h) = length (''Root'' # map strip nb)" by simp
  then have len: "n = Suc (length nb)" by (simp add: n_def)
  have d0: "0 \<le> d" by (simp add: d_def count_leading_spaces_nonneg)
  from stk have stne: "st \<noteq> []" by (cases st) auto
  have "fst (last st) = last (map fst st)" using stne by (simp add: last_map)
  also have "\<dots> = 0" using stk root by (simp add: last_rev)
  finally have fl: "fst (last st) = 0" .
  from ind stne have "snd (last st) = indent_at nb (fst (last st))" by simp
  with fl have "snd (last st) = - 1" by (simp add: indent_at_def)
  with d0 have "snd (last st) < d" by simp
  with stne have st1ne: "st1 \<noteq> []" unfolding st1_def using pop_while_nonempty by blast
  obtain pr where pr: "st = pr @ st1" unfolding st1_def using pop_while_split by blast
  have lst: "length st = length (spine T)" using stk by (metis length_map length_rev)
  from pr stk have "map fst st1 = drop (length pr) (rev (spine T))"
    by (metis append_eq_conv_conj drop_map)
  also have "\<dots> = rev (take (length (spine T) - length pr) (spine T))"
    using pr lst by (simp add: rev_take)
  also have "length (spine T) - length pr = length st1" using pr lst by simp
  finally have m1: "map fst st1 = rev (take (length st1) (spine T))" .
  from st1ne have sk: "Suc k = length st1" by (simp add: k_def)
  from pr lst sk have klt: "k < length (spine T)" by simp
  have "s = hd (map fst st1)" using st1ne by (simp add: s_def hd_map)
  also have "\<dots> = last (take (Suc k) (spine T))" using m1 sk klt by (simp add: hd_rev)
  also have "\<dots> = spine T ! k" using klt by (simp add: take_Suc_conv_app_nth)
  finally have sT: "s = spine T ! k" .
  have "s \<in> set (spine T)" using sT klt by simp
  then have "s \<in> set (preorder T)" using spine_subset [of T] by auto
  with pre have sn: "s < n" by simp
  have hd_in: "hd st1 \<in> set st" using st1ne pr by (cases st1) auto
  have cnd: "children nd = []" by (simp add: nd_def OrgNode_init_def)
  have PL: "parse_line (h, st) line = Inr (h', (n, d) # st1)"
    using ne st1ne
    by (cases st1) (auto simp: parse_line_def Let_def d_def st1_def n_def h'_def s_def nd_def)
  have T1: "is_tree h' (attach k (RNode n []) T)"
    unfolding h'_def sT n_def
    by (rule is_tree_attach) (use tree pre klt cnd in \<open>auto simp: n_def\<close>)
  have T2: "preorder (attach k (RNode n []) T) = [0..<length h']"
    using klt pre by (simp add: preorder_attach h'_def n_def)
  have T3: "map fst ((n, d) # st1) = rev (spine (attach k (RNode n []) T))"
    using klt m1 sk by (simp add: spine_attach)
  have T4: "map name h' = ''Root'' # map strip (nb @ [line])"
    using names by (simp add: h'_def nd_def OrgNode_init_def)
  have lt_n: "fst e < n" if "e \<in> set st" for e
  proof -
    from that have "fst e \<in> set (map fst st)" by simp
    then have "fst e \<in> set (spine T)" using stk by simp
    then have "fst e \<in> set (preorder T)" using spine_subset [of T] by auto
    with pre show ?thesis by simp
  qed
  have T5: "\<forall>e \<in> set ((n, d) # st1). snd e = indent_at (nb @ [line]) (fst e)"
  proof
    fix e assume e: "e \<in> set ((n, d) # st1)"
    show "snd e = indent_at (nb @ [line]) (fst e)"
    proof (cases "e = (n, d)")
      case True
      then show ?thesis using len indent_at_new [of nb line] by (simp add: d_def)
    next
      case False
      with e pr have est: "e \<in> set st" by auto
      with lt_n len have "fst e \<le> length nb" by fastforce
      with est ind show ?thesis by (simp add: indent_at_append)
    qed
  qed
  have T6: "parent (h' ! 0) = None"
    using p0 len by (simp add: h'_def parent_add_child nth_append n_def)
  have T7: "\<exists>p. parent (h' ! i) = Some p \<and> p < i \<and>
              indent_at (nb @ [line]) p < indent_at (nb @ [line]) i"
    if "i < length h'" "0 < i" for i
  proof (cases "i = n")
    case True
    have "parent (h' ! n) = Some s"
      using sn by (simp add: h'_def add_child_child n_def)
    moreover have "indent_at (nb @ [line]) s = snd (hd st1)"
      using sn len hd_in ind by (simp add: indent_at_append s_def)
    moreover have "snd (hd st1) < d" using st1ne pop_while_hd [of st d] by (simp add: st1_def)
    moreover have "indent_at (nb @ [line]) n = d"
      using len indent_at_new [of nb line] by (simp add: d_def)
    ultimately show ?thesis using sn True by auto
  next
    case False
    with that have i: "i < n" by (simp add: h'_def n_def)
    with par that obtain p where p: "parent (h ! i) = Some p" "p < i"
      "indent_at nb p < indent_at nb i" by blast
    from i False have "parent (h' ! i) = parent (h ! i)"
      by (simp add: h'_def parent_add_child nth_append n_def)
    with p i len show ?thesis by (simp add: indent_at_append)
  qed
  have "inv (nb @ [line]) (attach k (RNode n []) T) (h', (n, d) # st1)"
    unfolding inv_def using T1 T2 T3 T4 T5 T6 T7 root by simp
  with st1ne PL show ?thesis
    by (simp add: d_def st1_def n_def k_def s_def nd_def h'_def)
qed


section \<open>The parser on a file\<close>

lemma strip_Root [simp]: "strip ''Root'' = ''Root''"
  by (rule strip_id) (simp add: isspace_def)

lemma inv_init: "inv [] (RNode 0 []) parse_init"
  by (simp add: inv_def parse_init_def OrgNode_init_def indent_at_def)

lemma nonblank_append [simp]: "nonblank (xs @ ys) = nonblank xs @ nonblank ys"
  by (simp add: nonblank_def)

lemma inv_parse_lines:
  "inv nb T s \<Longrightarrow> \<exists>T' s'. parse_lines s ls = Inr s' \<and> inv (nb @ nonblank ls) T' s'"
proof (induction ls arbitrary: nb T s)
  case Nil
  then show ?case by (auto simp: nonblank_def)
next
  case (Cons line ls)
  obtain h st where s: "s = (h, st)" by (cases s)
  show ?case
  proof (cases "strip line = []")
    case True
    then have "parse_line s line = Inr s" by (simp add: parse_line_def s)
    moreover from True have "nonblank (line # ls) = nonblank ls" by (simp add: nonblank_def)
    ultimately show ?thesis using Cons.IH [OF Cons.prems] by simp
  next
    case False
    from inv_step [OF Cons.prems [unfolded s] False]
    obtain s1 T1 where 1: "parse_line s line = Inr s1" "inv (nb @ [line]) T1 s1"
      unfolding s by blast
    from Cons.IH [OF 1(2)] obtain T' s' where
      "parse_lines s1 ls = Inr s'" "inv ((nb @ [line]) @ nonblank ls) T' s'" by blast
    moreover from False have "nonblank (line # ls) = line # nonblank ls"
      by (simp add: nonblank_def)
    ultimately show ?thesis using 1(1) by auto
  qed
qed

lemma parse_lines_inv:
  "\<exists>T h st. parse_lines parse_init ls = Inr (h, st) \<and> inv (nonblank ls) T (h, st)"
  using inv_parse_lines [OF inv_init, of ls] by auto

lemma parse_org_file_inv:
  assumes "fs path = Some content"
  shows "\<exists>T h st. parse_org_file fs path = Inr (h, 0) \<and>
           inv (nonblank (readlines content)) T (h, st)"
proof -
  from parse_lines_inv [of "readlines content"] obtain T h st where
    "parse_lines parse_init (readlines content) = Inr (h, st)"
    "inv (nonblank (readlines content)) T (h, st)" by blast
  with assms show ?thesis by (auto simp: parse_org_file_def)
qed

lemma inv_stack:
  assumes "inv nb T (h, st)"
  shows "st \<noteq> [] \<and> last st = (0, - 1)"
proof -
  from assms have stk: "map fst st = rev (spine T)" and root: "root_of T = 0"
    and ind: "\<forall>e \<in> set st. snd e = indent_at nb (fst e)" by (auto simp: inv_def)
  from stk have stne: "st \<noteq> []" by (cases st) auto
  have "fst (last st) = last (map fst st)" using stne by (simp add: last_map)
  also have "\<dots> = 0" using stk root by (simp add: last_rev)
  finally have fl: "fst (last st) = 0" .
  from ind stne have "snd (last st) = indent_at nb (fst (last st))" by simp
  with fl have "snd (last st) = - 1" by (simp add: indent_at_def)
  with fl stne show ?thesis by (simp add: prod_eq_iff)
qed

text \<open>
  C10: parsing is total on the content of a file. After every prefix of the lines the
  stack is non-empty with the root and its indent \<open>-1\<close> at the bottom; the indentation
  of any line is above \<open>-1\<close>, so the pop loop leaves the stack non-empty with the root
  still at the bottom, and \<open>stack[-1]\<close> is defined. \<open>parse_org_file\<close> returns a tree
  for every file that exists.
\<close>

theorem parse_org_file_total:
  assumes "fs path = Some content"
  shows "(\<exists>h. parse_org_file fs path = Inr (h, 0)) \<and>
         (\<forall>k \<le> length (readlines content).
            \<exists>h st. parse_lines parse_init (take k (readlines content)) = Inr (h, st) \<and>
              st \<noteq> [] \<and> last st = (0, - 1) \<and>
              (\<forall>line. - 1 < count_leading_spaces line \<and>
                 pop_while st (count_leading_spaces line) \<noteq> [] \<and>
                 last (pop_while st (count_leading_spaces line)) = (0, - 1)))"
proof -
  have "\<exists>h st. parse_lines parse_init ls = Inr (h, st) \<and>
              st \<noteq> [] \<and> last st = (0, - 1) \<and>
              (\<forall>line. - 1 < count_leading_spaces line \<and>
                 pop_while st (count_leading_spaces line) \<noteq> [] \<and>
                 last (pop_while st (count_leading_spaces line)) = (0, - 1))" for ls
  proof -
    from parse_lines_inv [of ls] obtain T h st where
      p: "parse_lines parse_init ls = Inr (h, st)" and i: "inv (nonblank ls) T (h, st)" by blast
    from inv_stack [OF i] have st: "st \<noteq> []" "last st = (0, - 1)" by auto
    have "- 1 < count_leading_spaces line \<and>
          pop_while st (count_leading_spaces line) \<noteq> [] \<and>
          last (pop_while st (count_leading_spaces line)) = (0, - 1)" for line
    proof -
      have d: "0 \<le> count_leading_spaces line" by (rule count_leading_spaces_nonneg)
      with st have "snd (last st) < count_leading_spaces line" by simp
      from pop_while_nonempty [OF st(1) this] st(2) d show ?thesis by simp
    qed
    with p st show ?thesis by blast
  qed
  with parse_org_file_inv [of fs path content, OF assms] show ?thesis by blast
qed

section \<open>The tree of a parsed file\<close>

lemma fold_max_ge: "(a::nat) \<le> fold max xs a"
  by (induction xs arbitrary: a) (auto intro: order_trans [OF max.cobounded2])

lemma fold_max_mem: "x \<in> set xs \<Longrightarrow> (x::nat) \<le> fold max xs a"
proof (induction xs arbitrary: a)
  case Nil
  then show ?case by simp
next
  case (Cons y ys)
  show ?case
  proof (cases "x = y")
    case True
    have "x \<le> max y a" using True by simp
    also have "\<dots> \<le> fold max ys (max y a)" by (rule fold_max_ge)
    finally show ?thesis by simp
  next
    case False
    with Cons show ?thesis by simp
  qed
qed

lemma height_subtree: "t \<in> set ts \<Longrightarrow> height t \<le> fold max (map height ts) 0"
  by (rule fold_max_mem) simp

lemma those_map_Some:
  "(\<And>x. x \<in> set xs \<Longrightarrow> f (g x) = Some x) \<Longrightarrow> those (map f (map g xs)) = Some xs"
  by (induction xs) auto

lemma tree_of_is_tree:
  "is_tree h t \<Longrightarrow> height t \<le> fuel \<Longrightarrow> tree_of fuel h (root_of t) = Some t"
proof (induction t arbitrary: fuel)
  case (RNode x ts)
  from RNode.prems(2) obtain f where fuel: "fuel = Suc f" by (cases fuel) auto
  have "tree_of f h (root_of t) = Some t" if "t \<in> set ts" for t
  proof (rule RNode.IH [OF that])
    show "is_tree h t" using RNode.prems(1) that by simp
    show "height t \<le> f" using height_subtree [OF that] RNode.prems(2) fuel by simp
  qed
  then have "those (map (\<lambda>c. tree_of f h c) (map root_of ts)) = Some ts"
    by (rule those_map_Some)
  with RNode.prems(1) show ?case by (simp add: fuel)
qed

lemma fold_max_le_sum:
  "(\<And>t. t \<in> set ts \<Longrightarrow> height t \<le> length (preorder t)) \<Longrightarrow>
   fold max (map height ts) a \<le> a + length (concat (map preorder ts))"
proof (induction ts arbitrary: a)
  case Nil
  then show ?case by simp
next
  case (Cons t ts)
  have "fold max (map height ts) (max (height t) a)
          \<le> max (height t) a + length (concat (map preorder ts))"
    by (rule Cons.IH) (simp add: Cons.prems)
  moreover have "height t \<le> length (preorder t)" by (simp add: Cons.prems)
  ultimately show ?case by simp
qed

lemma height_le_size: "height t \<le> length (preorder t)"
proof (induction t)
  case (RNode x ts)
  then show ?case using fold_max_le_sum [of ts 0] by simp
qed

lemma inv_tree_of:
  assumes "inv nb T (h, st)"
  shows "tree_of (length h) h 0 = Some T"
proof -
  from assms have t: "is_tree h T" "root_of T = 0" "preorder T = [0..<length h]"
    by (auto simp: inv_def)
  have "height T \<le> length (preorder T)" by (rule height_le_size)
  with t(3) have "height T \<le> length h" by simp
  from tree_of_is_tree [OF t(1) this] t(2) show ?thesis by simp
qed

text \<open>
  C1: the tree below the root returned by \<open>parse_org_file\<close> has exactly one node for
  each non-blank line of the file, and no other: walked in pre-order from the root, the
  nodes after the root are pairwise distinct, as many as the non-blank lines, and their
  names are the stripped lines in file order. The lines are those that the iteration
  over the file yields: a line ends at a line feed, at a carriage return, or at the two
  in a row.
\<close>

theorem parse_node_count:
  assumes "fs path = Some content"
  shows "\<exists>h ids. parse_org_file fs path = Inr (h, 0) \<and>
           map_option preorder (tree_of (length h) h 0) = Some (0 # ids) \<and>
           distinct (0 # ids) \<and>
           length ids = length (nonblank (readlines content)) \<and>
           map (\<lambda>i. name (h ! i)) ids = map strip (nonblank (readlines content))"
proof -
  let ?nb = "nonblank (readlines content)"
  from parse_org_file_inv [of fs path content, OF assms] obtain T h st where
    p: "parse_org_file fs path = Inr (h, 0)" and i: "inv ?nb T (h, st)" by blast
  from i have pre: "preorder T = [0..<length h]"
    and names: "map name h = ''Root'' # map strip ?nb" by (auto simp: inv_def)
  from names have "length (map name h) = length (''Root'' # map strip ?nb)" by simp
  then have len: "length h = Suc (length ?nb)" by simp
  then have "0 < length h" by simp
  then have up: "[0..<length h] = 0 # [1..<length h]"
    using upt_conv_Cons [of 0 "length h"] by simp
  have "map (\<lambda>i. name (h ! i)) [1..<length h] = tl (map name h)"
    by (rule nth_equalityI) (auto simp: nth_tl)
  with names have nm: "map (\<lambda>i. name (h ! i)) [1..<length h] = map strip ?nb" by simp
  have "map_option preorder (tree_of (length h) h 0) = Some (0 # [1..<length h])"
    using inv_tree_of [OF i] pre up by simp
  moreover have "distinct (0 # [1..<length h])" by simp
  moreover have "length [1..<length h] = length h - 1" by (simp only: length_upt)
  then have "length [1..<length h] = length ?nb" using len by simp
  ultimately show ?thesis using p nm by blast
qed

text \<open>
  C8: in the tree returned by \<open>parse_org_file\<close> the root has no parent, and every other
  node has a parent whose indentation is strictly smaller than its own, the root
  counting as \<open>-1\<close>. Node \<open>i\<close> is the node of the \<open>i\<close>-th non-blank line, of the lines
  that the iteration over the file yields, and its indentation is the count of leading
  whitespace of that line.
\<close>

theorem parent_indent_less:
  assumes "fs path = Some content"
  shows "\<exists>h. parse_org_file fs path = Inr (h, 0) \<and>
           length h = Suc (length (nonblank (readlines content))) \<and>
           parent (h ! 0) = None \<and>
           (\<forall>i < length h. 0 < i \<longrightarrow>
              (\<exists>p. parent (h ! i) = Some p \<and> p < i \<and>
                 indent_at (nonblank (readlines content)) p
                   < indent_at (nonblank (readlines content)) i))"
proof -
  let ?nb = "nonblank (readlines content)"
  from parse_org_file_inv [of fs path content, OF assms] obtain T h st where
    p: "parse_org_file fs path = Inr (h, 0)" and i: "inv ?nb T (h, st)" by blast
  from i have names: "map name h = ''Root'' # map strip ?nb" by (auto simp: inv_def)
  from names have "length (map name h) = length (''Root'' # map strip ?nb)" by simp
  then have len: "length h = Suc (length ?nb)" by simp
  with p i show ?thesis by (auto simp: inv_def)
qed


theorem parse_org_file_total_witness:
  "sample_fs ''org.txt'' = Some sample_text \<and>
   (\<exists>h. parse_org_file sample_fs ''org.txt'' = Inr (h, 0)) \<and>
   3 \<le> length (readlines sample_text) \<and>
   (\<exists>h st. parse_lines parse_init (take 3 (readlines sample_text)) = Inr (h, st) \<and>
      st \<noteq> [] \<and> last st = (0, - 1) \<and>
      (\<forall>line. - 1 < count_leading_spaces line \<and>
         pop_while st (count_leading_spaces line) \<noteq> [] \<and>
         last (pop_while st (count_leading_spaces line)) = (0, - 1)))"
proof -
  have f: "sample_fs ''org.txt'' = Some sample_text" by (simp add: sample_fs_def)
  have l: "3 \<le> length (readlines sample_text)" by code_simp
  from f l parse_org_file_total [of sample_fs "''org.txt''" sample_text, OF f]
  show ?thesis by blast
qed

lemma cr_text: "cr_fs ''cr.txt'' = Some [CHR ''A'', CHR 0x0D, CHR '' '', CHR ''B'', CHR 0x0A]"
  by (simp add: cr_fs_def)

lemma cr2_text: "cr_fs ''cr2.txt'' = Some (''A\<newline> B\<newline>'' @ [CHR 0x0D] @ '' C\<newline>'')"
  by (simp add: cr_fs_def)

lemma readlines_cr:
  "readlines [CHR ''A'', CHR 0x0D, CHR '' '', CHR ''B'', CHR 0x0A] = [''A\<newline>'', '' B\<newline>'']"
  by code_simp

lemma readlines_cr2:
  "readlines (''A\<newline> B\<newline>'' @ [CHR 0x0D] @ '' C\<newline>'') = [''A\<newline>'', '' B\<newline>'', ''\<newline>'', '' C\<newline>'']"
  by code_simp

lemma parse_cr: "parse_org_file cr_fs ''cr.txt'' = Inr (cr_heap, 0)"
  by code_simp

lemma parse_cr2: "parse_org_file cr_fs ''cr2.txt'' = Inr (cr2_heap, 0)"
  by code_simp

theorem parse_node_count_witness:
  "cr_fs ''cr.txt'' = Some [CHR ''A'', CHR 0x0D, CHR '' '', CHR ''B'', CHR 0x0A] \<and>
   nonblank (readlines [CHR ''A'', CHR 0x0D, CHR '' '', CHR ''B'', CHR 0x0A])
     = [''A\<newline>'', '' B\<newline>''] \<and>
   parse_org_file cr_fs ''cr.txt'' = Inr (cr_heap, 0) \<and>
   (\<exists>h ids. parse_org_file cr_fs ''cr.txt'' = Inr (h, 0) \<and>
      map_option preorder (tree_of (length h) h 0) = Some (0 # ids) \<and>
      distinct (0 # ids) \<and> length ids = 2 \<and>
      map (\<lambda>i. name (h ! i)) ids = [''A'', ''B''])"
proof -
  have nb: "nonblank (readlines [CHR ''A'', CHR 0x0D, CHR '' '', CHR ''B'', CHR 0x0A])
      = [''A\<newline>'', '' B\<newline>'']"
    by code_simp
  have st: "map strip [''A\<newline>'', '' B\<newline>''] = [''A'', ''B'']" by code_simp
  from parse_node_count [of cr_fs "''cr.txt''", OF cr_text] cr_text nb parse_cr
  show ?thesis unfolding nb st by (simp add: eval_nat_numeral)
qed

theorem parent_indent_less_witness:
  "cr_fs ''cr2.txt'' = Some (''A\<newline> B\<newline>'' @ [CHR 0x0D] @ '' C\<newline>'') \<and>
   nonblank (readlines (''A\<newline> B\<newline>'' @ [CHR 0x0D] @ '' C\<newline>''))
     = [''A\<newline>'', '' B\<newline>'', '' C\<newline>''] \<and>
   parse_org_file cr_fs ''cr2.txt'' = Inr (cr2_heap, 0) \<and>
   parent (cr2_heap ! 3) = Some 1 \<and>
   indent_at [''A\<newline>'', '' B\<newline>'', '' C\<newline>''] 3 = 1 \<and>
   (\<exists>h. parse_org_file cr_fs ''cr2.txt'' = Inr (h, 0) \<and>
      length h = 4 \<and> parent (h ! 0) = None \<and>
      (\<forall>i < length h. 0 < i \<longrightarrow>
         (\<exists>p. parent (h ! i) = Some p \<and> p < i \<and>
            indent_at [''A\<newline>'', '' B\<newline>'', '' C\<newline>''] p
              < indent_at [''A\<newline>'', '' B\<newline>'', '' C\<newline>''] i)))"
proof -
  have nb: "nonblank (readlines (''A\<newline> B\<newline>'' @ [CHR 0x0D] @ '' C\<newline>''))
     = [''A\<newline>'', '' B\<newline>'', '' C\<newline>'']"
    by code_simp
  have p3: "parent (cr2_heap ! 3) = Some 1" by (simp add: cr2_heap_def)
  have i3: "indent_at [''A\<newline>'', '' B\<newline>'', '' C\<newline>''] 3 = 1" by code_simp
  from parent_indent_less [of cr_fs "''cr2.txt''", OF cr2_text] cr2_text nb parse_cr2 p3 i3
  show ?thesis unfolding nb by (simp add: eval_nat_numeral)
qed

section \<open>The driver on a missing and on a blank file\<close>

text \<open>
  C7: when the path does not exist, \<open>main\<close> returns normally whatever the format and
  the recursion bound; it appends exactly the two lines of the remediation message to
  the standard output, and leaves the diagnostic stream and the rendered files as they
  were. Each entry of \<open>stdout\<close> is one \<open>print\<close> call.
\<close>

theorem file_not_found_handled:
  assumes "files w (filename a) = None"
  shows "main fuel w a =
           Some (Returned,
                 w\<lparr>stdout := stdout w @
                    [''Error: '' @ filename a @
                       '' not found. Please create a text file with your organization structure.'',
                     ''Each line should represent a resource, with indentation showing reporting relationships.'']\<rparr>)"
  using assms by (simp add: main_def parse_org_file_def not_found_message_def)

theorem file_not_found_handled_witness:
  "files sample_world (filename \<lparr>filename = ''missing.txt'', format = None\<rparr>) = None \<and>
   main 0 sample_world \<lparr>filename = ''missing.txt'', format = None\<rparr> =
     Some (Returned,
           \<lparr>files = sample_fs,
            stdout = [''Error: missing.txt not found. Please create a text file with your organization structure.'',
                      ''Each line should represent a resource, with indentation showing reporting relationships.''],
            stderr = [], rendered = []\<rparr>)"
proof -
  have f: "files sample_world (filename \<lparr>filename = ''missing.txt'', format = None\<rparr>) = None"
    by (simp add: sample_world_def sample_fs_def)
  from f file_not_found_handled [of sample_world "\<lparr>filename = ''missing.txt'', format = None\<rparr>" 0, OF f]
  show ?thesis by (simp add: sample_world_def)
qed

lemma parse_lines_blank: "nonblank ls = [] \<Longrightarrow> parse_lines s ls = Inr s"
proof (induction ls)
  case Nil
  then show ?case by simp
next
  case (Cons l ls)
  from Cons.prems have b: "strip l = []" and r: "nonblank ls = []"
    by (auto simp: nonblank_def split: if_splits)
  from b have "parse_line s l = Inr s" by (cases s) (simp add: parse_line_def)
  with Cons.IH [OF r] show ?case by simp
qed

lemma parse_org_file_blank:
  assumes "fs path = Some content" and "nonblank (readlines content) = []"
  shows "parse_org_file fs path = Inr ([\<lparr>name = ''Root'', children = [], parent = None\<rparr>], 0)"
  using assms parse_lines_blank [of "readlines content" parse_init]
  by (simp add: parse_org_file_def parse_init_def OrgNode_init_def)

text \<open>
  C4, amended: for a file with no non-blank line the parser returns a root without
  children. The driver's invocations for the formats \<open>tree\<close>, \<open>visio\<close> and
  \<open>svg\<close> end in the \<open>IndexError\<close> of \<open>root.children[0]\<close>, before any renderer
  runs; the run of all formats ends there at the first of them, after the header on the
  diagnostic stream. The Mermaid renderer tests \<open>node.children\<close> first: its invocation
  returns normally and prints nothing.
\<close>

theorem blank_file_runs:
  assumes "files w (filename a) = Some content" and "nonblank (readlines content) = []"
  shows "parse_org_file (files w) (filename a) =
           Inr ([\<lparr>name = ''Root'', children = [], parent = None\<rparr>], 0) \<and>
         main fuel w a =
           (case format a of
              None \<Rightarrow> Some (Raised IndexError, w\<lparr>stderr := stderr w @ [''Organization Chart'']\<rparr>)
            | Some Tree \<Rightarrow> Some (Raised IndexError, w)
            | Some Visio \<Rightarrow> Some (Raised IndexError, w)
            | Some Mermaid \<Rightarrow> Some (Returned, w)
            | Some Svg \<Rightarrow> Some (Raised IndexError, w))"
proof -
  have p: "parse_org_file (files w) (filename a) =
      Inr ([\<lparr>name = ''Root'', children = [], parent = None\<rparr>], 0)"
    using assms by (rule parse_org_file_blank)
  show ?thesis
    by (simp add: p main_def run_tree_def run_visio_def run_mermaid_def run_svg_def
        first_child_def print_mermaid_flowchart_def and_then_def eprint_def
        split: option.split fmt.split)
qed

theorem blank_file_runs_witness:
  "files blank_world (filename \<lparr>filename = ''blank.txt'', format = Some Tree\<rparr>) = Some ''  \<newline>\<newline>'' \<and>
   nonblank (readlines ''  \<newline>\<newline>'') = [] \<and>
   main 5 blank_world \<lparr>filename = ''blank.txt'', format = Some Tree\<rparr> =
     Some (Raised IndexError, blank_world)"
proof -
  have f: "files blank_world (filename \<lparr>filename = ''blank.txt'', format = Some Tree\<rparr>) = Some ''  \<newline>\<newline>''"
    by (simp add: blank_world_def blank_fs_def)
  have b: "nonblank (readlines ''  \<newline>\<newline>'') = []" by code_simp
  from f b blank_file_runs [of blank_world "\<lparr>filename = ''blank.txt'', format = Some Tree\<rparr>" "''  \<newline>\<newline>''" 5, OF f b]
  show ?thesis by simp
qed

text \<open>
  On the file \<open>blank.txt\<close>, two blank lines, the Mermaid invocation returns without
  an error and the image invocation raises \<open>IndexError\<close>.
\<close>

theorem blank_file_mermaid_counterexample:
  "main 5 blank_world \<lparr>filename = ''blank.txt'', format = Some Mermaid\<rparr> = Some (Returned, blank_world) \<and>
   main 5 blank_world \<lparr>filename = ''blank.txt'', format = Some Svg\<rparr> = Some (Raised IndexError, blank_world)"
proof -
  have p: "parse_org_file blank_fs ''blank.txt'' =
      Inr ([\<lparr>name = ''Root'', children = [], parent = None\<rparr>], 0)"
    by code_simp
  show ?thesis
    by (simp add: main_def blank_world_def p run_mermaid_def run_svg_def first_child_def
        print_mermaid_flowchart_def)
qed

section \<open>The listing and the reports-to lines\<close>

lemma for_each_trees:
  "(\<And>t s. t \<in> set ts \<Longrightarrow> body (root_of t) s = Some (g t s)) \<Longrightarrow>
   for_each body (map root_of ts) s = Some (fold g ts s)"
  by (induction ts arbitrary: s) auto

lemma fold_append_out: "fold (\<lambda>t out. out @ f t) ts out = out @ concat (map f ts)"
  by (induction ts arbitrary: out) auto

lemma print_org_chart_tree:
  "is_tree h t \<Longrightarrow> height t \<le> fuel \<Longrightarrow>
   print_org_chart fuel h (root_of t) level out = Some (out @ listing level (names_of h t))"
proof (induction t arbitrary: fuel level out)
  case (RNode x ts)
  from RNode.prems(2) obtain f where fuel: "fuel = Suc f" by (cases fuel) auto
  have step: "print_org_chart f h (root_of t) (level + 1) s
                = Some (s @ listing (Suc level) (names_of h t))" if "t \<in> set ts" for t s
  proof -
    have "is_tree h t" using RNode.prems(1) that by simp
    moreover have "height t \<le> f" using height_subtree [OF that] RNode.prems(2) fuel by simp
    ultimately show ?thesis using RNode.IH [OF that] by simp
  qed
  have "for_each (\<lambda>child out'. print_org_chart f h child (level + 1) out') (map root_of ts) s
          = Some (fold (\<lambda>t s. s @ listing (Suc level) (names_of h t)) ts s)" for s
    by (rule for_each_trees) (rule step)
  with RNode.prems(1) show ?case
    by (simp add: fuel fold_append_out names_of_def comp_def)
qed

lemma report_lines_append [simp]:
  "report_lines h (xs @ ys) = report_lines h xs @ report_lines h ys"
  by (simp add: report_lines_def)

lemma report_lines_Nil [simp]: "report_lines h [] = []"
  by (simp add: report_lines_def)

lemma report_lines_concat:
  "report_lines h (concat xss) = concat (map (report_lines h) xss)"
  by (induction xss) auto

lemma print_reporting_relationships_tree:
  "is_tree h t \<Longrightarrow> height t \<le> fuel \<Longrightarrow>
   print_reporting_relationships fuel h (root_of t) out
     = Some (out @ own_report h (root_of t) @ report_lines h (edges t))"
proof (induction t arbitrary: fuel out)
  case (RNode x ts)
  from RNode.prems(2) obtain f where fuel: "fuel = Suc f" by (cases fuel) auto
  have step: "print_reporting_relationships f h (root_of t) s
                = Some (s @ report_lines h ((x, root_of t) # edges t))" if "t \<in> set ts" for t s
  proof -
    have "is_tree h t" and p: "parent (h ! root_of t) = Some x"
      using RNode.prems(1) that by auto
    moreover have "height t \<le> f" using height_subtree [OF that] RNode.prems(2) fuel by simp
    ultimately have "print_reporting_relationships f h (root_of t) s
        = Some (s @ own_report h (root_of t) @ report_lines h (edges t))"
      using RNode.IH [OF that] by simp
    moreover have "own_report h (root_of t) @ report_lines h (edges t)
        = report_lines h ((x, root_of t) # edges t)"
      using report_lines_append [of h "[(x, root_of t)]" "edges t"] p
      by (simp add: own_report_def)
    ultimately show ?thesis by simp
  qed
  have loop: "for_each (\<lambda>child out'. print_reporting_relationships f h child out')
            (map root_of ts) s
          = Some (fold (\<lambda>t s. s @ report_lines h ((x, root_of t) # edges t)) ts s)" for s
    by (rule for_each_trees) (rule step)
  have start: "(case parent (h ! x) of None \<Rightarrow> out
        | Some p \<Rightarrow> if name (h ! p) \<noteq> ''Root''
            then out @ [name (h ! x) @ '' reports to '' @ name (h ! p)] else out)
        = out @ own_report h x"
    by (simp add: own_report_def report_lines_def report_line_def split: option.split)
  from RNode.prems(1) have ch: "children (h ! x) = map root_of ts" by simp
  show ?case
    by (simp add: fuel ch start loop fold_append_out report_lines_concat comp_def
        del: report_lines_append)
qed

section \<open>The Mermaid block\<close>

lemma upt_split:
  assumes "xs @ ys = [a..<a + n]"
  shows "xs = [a..<a + length xs] \<and> ys = [a + length xs..<a + n] \<and> length xs + length ys = n"
proof -
  from assms have "length (xs @ ys) = length [a..<a + n]" by simp
  then have len: "length xs + length ys = n" by simp
  then have "[a..<a + n] = [a..<a + length xs] @ [a + length xs..<a + n]"
    by (metis le_add1 nat_add_left_cancel_le upt_add_eq_append add.assoc)
  with assms have "xs @ ys = [a..<a + length xs] @ [a + length xs..<a + n]" by simp
  then have "xs = [a..<a + length xs] \<and> ys = [a + length xs..<a + n]"
    by (subst (asm) append_eq_append_conv) simp_all
  with len show ?thesis by simp
qed

lemma parent_in_tree:
  "is_tree h t \<Longrightarrow> i \<in> set (preorder t) \<Longrightarrow>
   i = root_of t \<or> (\<exists>p \<in> set (preorder t). parent (h ! i) = Some p)"
proof (induction t)
  case (RNode x ts)
  show ?case
  proof (cases "i = x")
    case True
    then show ?thesis by simp
  next
    case False
    with RNode.prems(2) obtain t where t: "t \<in> set ts" "i \<in> set (preorder t)" by auto
    with RNode.prems(1) have it: "is_tree h t" "parent (h ! root_of t) = Some x" by auto
    from RNode.IH [OF t(1) it(1) t(2)] it(2) t show ?thesis by auto
  qed
qed

lemma preorder_nonempty [simp]: "preorder t \<noteq> []"
  by (cases t) simp

lemma preorder_upt_root:
  assumes "preorder t = [r..<r + m]"
  shows "root_of t = r \<and> 0 < m"
proof -
  have "preorder t \<noteq> []" by (cases t) simp
  with assms have m: "0 < m" by (cases m) auto
  then have "[r..<r + m] = r # [Suc r..<r + m]" by (simp add: upt_conv_Cons)
  with assms have "preorder t = r # [Suc r..<r + m]" by simp
  then have "root_of t = r" by (cases t) simp
  with m show ?thesis by simp
qed

lemma mermaid_forest:
  assumes each: "\<And>t a m c' out. t \<in> set ts \<Longrightarrow> preorder t = [a..<a + m] \<Longrightarrow>
      print_mermaid_nodes f h a (Some (mermaid_id c)) (Some c') out =
        Some (c' + m, out @ mermaid_decl c' (name (h ! a)) # mermaid_edge (mermaid_id c) c' #
                concat (map (mermaid_node h a c') [Suc a..<a + m]))"
    and trees: "\<forall>t \<in> set ts. is_tree h t \<and> parent (h ! root_of t) = Some r"
    and pre: "concat (map preorder ts) = [a..<a + n]" and ra: "r < a"
  shows "for_each (\<lambda>child s. case s of (c', out') \<Rightarrow>
             print_mermaid_nodes f h child (Some (mermaid_id c)) (Some c') out')
           (map root_of ts) (c + (a - r), out)
         = Some (c + (a - r) + n, out @ concat (map (mermaid_node h r c) [a..<a + n]))"
  using each trees pre ra
proof (induction ts arbitrary: a n out)
  case Nil
  from Nil.prems(3) have "[a..<a + n] = []" by simp
  then have "n = 0" by auto
  then show ?case by simp
next
  case (Cons t ts)
  let ?m = "length (preorder t)"
  from Cons.prems(3) have "preorder t @ concat (map preorder ts) = [a..<a + n]" by simp
  from upt_split [OF this] have pt: "preorder t = [a..<a + ?m]"
    and rest: "concat (map preorder ts) = [a + ?m..<a + n]"
    and len: "?m + length (concat (map preorder ts)) = n" by auto
  define n' where "n' = length (concat (map preorder ts))"
  from len have n: "n = ?m + n'" by (simp add: n'_def)
  from rest n have rest': "concat (map preorder ts) = [(a + ?m)..<(a + ?m) + n']"
    by (simp add: add.assoc)
  from preorder_upt_root [OF pt] have rt: "root_of t = a" by simp
  from Cons.prems(2) have it: "is_tree h t" and pa: "parent (h ! a) = Some r"
    using rt by auto
  let ?c' = "c + (a - r)"
  have first: "print_mermaid_nodes f h a (Some (mermaid_id c)) (Some ?c') out =
        Some (?c' + ?m, out @ mermaid_decl ?c' (name (h ! a)) # mermaid_edge (mermaid_id c) ?c' #
                concat (map (mermaid_node h a ?c') [Suc a..<a + ?m]))"
    by (rule Cons.prems(1) [OF _ pt]) simp
  have hd_eq: "[mermaid_decl ?c' (name (h ! a)), mermaid_edge (mermaid_id c) ?c']
                 = mermaid_node h r c a"
    using pa by (simp add: mermaid_node_def)
  have tl_eq: "map (mermaid_node h a ?c') [Suc a..<a + ?m] = map (mermaid_node h r c) [Suc a..<a + ?m]"
  proof (rule map_cong [OF refl])
    fix i assume "i \<in> set [Suc a..<a + ?m]"
    then have i: "a < i" "i < a + ?m" by auto
    then have "i \<in> set (preorder t)" by (subst pt) simp
    from parent_in_tree [OF it this] i rt
    obtain p where p: "p \<in> set (preorder t)" "parent (h ! i) = Some p" by auto
    from p(1) have "a \<le> p" by (subst (asm) pt) simp
    with i Cons.prems(4) p(2) show "mermaid_node h a ?c' i = mermaid_node h r c i"
      by (simp add: mermaid_node_def)
  qed
  have "a < a + ?m" by simp
  then have up: "[a..<a + ?m] = a # [Suc a..<a + ?m]" by (rule upt_conv_Cons)
  have lines: "mermaid_decl ?c' (name (h ! a)) # mermaid_edge (mermaid_id c) ?c' #
                concat (map (mermaid_node h a ?c') [Suc a..<a + ?m])
               = concat (map (mermaid_node h r c) [a..<a + ?m])"
    using hd_eq by (simp only: tl_eq up) simp
  have nxt: "for_each (\<lambda>child s. case s of (c', out') \<Rightarrow>
             print_mermaid_nodes f h child (Some (mermaid_id c)) (Some c') out')
           (map root_of ts) (c + ((a + ?m) - r), out')
         = Some (c + ((a + ?m) - r) + n', out' @ concat (map (mermaid_node h r c) [(a + ?m)..<(a + ?m) + n']))"
    for out'
  proof (rule Cons.IH)
    show "\<And>t a m c' out. t \<in> set ts \<Longrightarrow> preorder t = [a..<a + m] \<Longrightarrow>
      print_mermaid_nodes f h a (Some (mermaid_id c)) (Some c') out =
        Some (c' + m, out @ mermaid_decl c' (name (h ! a)) # mermaid_edge (mermaid_id c) c' #
                concat (map (mermaid_node h a c') [Suc a..<a + m]))"
    proof -
      fix t' a' m' c' out'
      assume a: "t' \<in> set ts" "preorder t' = [a'..<a' + m']"
      from a(1) have "t' \<in> set (t # ts)" by simp
      from Cons.prems(1) [OF this a(2)]
      show "print_mermaid_nodes f h a' (Some (mermaid_id c)) (Some c') out' =
        Some (c' + m', out' @ mermaid_decl c' (name (h ! a')) # mermaid_edge (mermaid_id c) c' #
                concat (map (mermaid_node h a' c') [Suc a'..<a' + m']))" .
    qed
    show "\<forall>t \<in> set ts. is_tree h t \<and> parent (h ! root_of t) = Some r"
      using Cons.prems(2) by simp
    show "concat (map preorder ts) = [(a + ?m)..<(a + ?m) + n']" by (rule rest')
    show "r < a + ?m" using Cons.prems(4) by simp
  qed
  have cnt: "?c' + ?m = c + ((a + ?m) - r)" using Cons.prems(4) by simp
  have split: "[a..<a + n] = [a..<a + ?m] @ [(a + ?m)..<(a + ?m) + n']"
    unfolding n by (metis add.assoc le_add1 upt_add_eq_append)
  let ?body = "\<lambda>child s. case s of (c', out') \<Rightarrow>
             print_mermaid_nodes f h child (Some (mermaid_id c)) (Some c') out'"
  let ?L1 = "concat (map (mermaid_node h r c) [a..<a + ?m])"
  let ?L2 = "concat (map (mermaid_node h r c) [(a + ?m)..<(a + ?m) + n'])"
  have "for_each ?body (map root_of (t # ts)) (?c', out)
          = for_each ?body (map root_of ts) (?c' + ?m, out @ ?L1)"
    using rt first lines by simp
  also have "\<dots> = for_each ?body (map root_of ts) (c + ((a + ?m) - r), out @ ?L1)"
    by (simp only: cnt)
  also have "\<dots> = Some (c + ((a + ?m) - r) + n', (out @ ?L1) @ ?L2)"
    by (rule nxt)
  also have "c + ((a + ?m) - r) + n' = ?c' + n" using Cons.prems(4) n by simp
  also have "(out @ ?L1) @ ?L2 = out @ concat (map (mermaid_node h r c) [a..<a + n])"
    by (simp only: split map_append concat_append append_assoc)
  finally show ?case .
qed

lemma print_mermaid_nodes_tree:
  "is_tree h t \<Longrightarrow> preorder t = [r..<r + m] \<Longrightarrow> height t \<le> fuel \<Longrightarrow>
   print_mermaid_nodes fuel h r pid (Some c) out =
     Some (c + m,
           out @ mermaid_decl c (name (h ! r)) #
             (case pid of None \<Rightarrow> [] | Some p \<Rightarrow> [mermaid_edge p c]) @
             concat (map (mermaid_node h r c) [Suc r..<r + m]))"
proof (induction t arbitrary: fuel r m pid c out)
  case (RNode x ts)
  from RNode.prems(3) obtain f where fuel: "fuel = Suc f" by (cases fuel) auto
  from preorder_upt_root [OF RNode.prems(2)] have x: "x = r" and m: "0 < m" by auto
  then obtain n where n: "m = Suc n" by (cases m) auto
  have "[r..<r + m] = r # [Suc r..<r + m]" using m by (simp add: upt_conv_Cons)
  with RNode.prems(2) have pre: "concat (map preorder ts) = [Suc r..<Suc r + n]"
    by (simp add: n)
  have each: "print_mermaid_nodes f h a (Some (mermaid_id c)) (Some c') out' =
        Some (c' + m', out' @ mermaid_decl c' (name (h ! a)) # mermaid_edge (mermaid_id c) c' #
                concat (map (mermaid_node h a c') [Suc a..<a + m']))"
    if "t \<in> set ts" "preorder t = [a..<a + m']" for t a m' c' out'
  proof -
    have "is_tree h t" using RNode.prems(1) that(1) by simp
    moreover have "height t \<le> f"
      using height_subtree [OF that(1)] RNode.prems(3) fuel by simp
    ultimately show ?thesis
      using RNode.IH [OF that(1) _ that(2), of f "Some (mermaid_id c)" c' out'] by simp
  qed
  have trees: "\<forall>t \<in> set ts. is_tree h t \<and> parent (h ! root_of t) = Some r"
    using RNode.prems(1) x by simp
  have loop: "for_each (\<lambda>child s. case s of (c', out') \<Rightarrow>
             print_mermaid_nodes f h child (Some (mermaid_id c)) (Some c') out')
           (map root_of ts) (c + (Suc r - r), out')
         = Some (c + (Suc r - r) + n, out' @ concat (map (mermaid_node h r c) [Suc r..<Suc r + n]))"
    for out'
    by (rule mermaid_forest [OF each trees pre]) simp_all
  from RNode.prems(1) x have ch: "children (h ! r) = map root_of ts" by simp
  have one: "c + (Suc r - r) = Suc c" by simp
  show ?case
    using loop [unfolded one]
    by (simp add: fuel ch n Let_def mermaid_decl_def mermaid_id_def mermaid_edge_def
        split: option.split del: upt.simps)
qed

lemma parse_org_file_Inr:
  assumes "parse_org_file fs path = Inr (h, root)"
  shows "root = 0 \<and> (\<exists>content T st. fs path = Some content \<and>
           inv (nonblank (readlines content)) T (h, st))"
proof -
  from assms obtain content where c: "fs path = Some content"
    by (auto simp: parse_org_file_def split: option.splits)
  from parse_org_file_inv [of fs path content, OF c] assms show ?thesis using c by auto
qed

lemma inv_length: "inv nb T (h, st) \<Longrightarrow> length h = Suc (length nb)"
proof -
  assume "inv nb T (h, st)"
  then have "map name h = ''Root'' # map strip nb" by (simp add: inv_def)
  then have "length (map name h) = length (''Root'' # map strip nb)" by simp
  then show ?thesis by simp
qed

lemma inv_root_name: "inv nb T (h, st) \<Longrightarrow> name (h ! 0) = ''Root''"
proof -
  assume i: "inv nb T (h, st)"
  then have "map name h = ''Root'' # map strip nb" by (simp add: inv_def)
  then have "map name h ! 0 = ''Root''" by simp
  moreover have "0 < length h" using inv_length [OF i] by simp
  ultimately show ?thesis by simp
qed

lemma inv_first_child:
  assumes i: "inv nb T (h, st)" and ch: "children (h ! 0) = c # cs"
  shows "c = 1 \<and> (\<exists>t m. is_tree h t \<and> preorder t = [1..<1 + m] \<and> height t \<le> length h \<and>
           tree_of (length h) h c = Some t)"
proof -
  from i have tree: "is_tree h T" and root: "root_of T = 0"
    and pre: "preorder T = [0..<length h]" by (auto simp: inv_def)
  obtain ts where T: "T = RNode 0 ts" using root by (cases T) auto
  with tree ch obtain t ts' where ts: "ts = t # ts'" and rt: "root_of t = c"
    by (cases ts) auto
  from tree T ts have it: "is_tree h t" by simp
  have pos: "0 < length h" using inv_length [OF i] by simp
  then obtain n where n: "length h = Suc n" by (cases "length h") auto
  have "[0..<length h] = 0 # [1..<1 + n]" using n by (simp add: upt_conv_Cons del: upt_Suc)
  with pre T ts have "preorder t @ concat (map preorder ts') = [1..<1 + n]" by simp
  from upt_split [OF this] have pt: "preorder t = [1..<1 + length (preorder t)]"
    and le: "length (preorder t) \<le> n" by auto
  from preorder_upt_root [OF pt] rt have c: "c = 1" by simp
  have "height t \<le> length (preorder t)" by (rule height_le_size)
  with le n have ht: "height t \<le> length h" by simp
  from tree_of_is_tree [OF it ht] rt have "tree_of (length h) h c = Some t" by simp
  with c it pt ht show ?thesis by blast
qed

lemma print_mermaid_flowchart_parsed:
  assumes p: "parse_org_file fs path = Inr (h, root)" and ch: "children (h ! root) = c # cs"
  shows "\<exists>t m. tree_of (length h) h c = Some t \<and> preorder t = [c..<c + m] \<and>
           (\<forall>fuel \<ge> length h. \<forall>out. print_mermaid_flowchart fuel h root out =
              Some (out @ [''```mermaid'', ''flowchart TB''] @
                    mermaid_decl 0 (name (h ! c)) #
                    concat (map (mermaid_node h c 0) [Suc c..<c + m]) @ [''```'']))"
proof -
  from parse_org_file_Inr [OF p] obtain nb T st where r0: "root = 0"
    and i: "inv nb T (h, st)" by blast
  from inv_first_child [OF i ch [unfolded r0]] obtain t m where c: "c = 1"
    and it: "is_tree h t" and pt: "preorder t = [1..<1 + m]" and ht: "height t \<le> length h"
    and tr: "tree_of (length h) h c = Some t" by blast
  have run: "print_mermaid_flowchart fuel h root out =
              Some (out @ [''```mermaid'', ''flowchart TB''] @
                    mermaid_decl 0 (name (h ! c)) #
                    concat (map (mermaid_node h c 0) [Suc c..<c + m]) @ [''```''])"
    if "length h \<le> fuel" for fuel out
  proof -
    from ht that have "height t \<le> fuel" by simp
    from print_mermaid_nodes_tree [OF it pt this, of None 0 "out @ [''```mermaid'', ''flowchart TB'']"]
    have "print_mermaid_nodes fuel h 1 None (Some 0) (out @ [''```mermaid'', ''flowchart TB'']) =
      Some (m, (out @ [''```mermaid'', ''flowchart TB'']) @ mermaid_decl 0 (name (h ! 1)) #
             concat (map (mermaid_node h 1 0) [Suc 1..<1 + m]))" by simp
    moreover have "print_mermaid_nodes fuel h 1 None None s = print_mermaid_nodes fuel h 1 None (Some 0) s"
      for s by (cases fuel) simp_all
    ultimately show ?thesis
      using inv_root_name [OF i] ch r0 c by (simp add: print_mermaid_flowchart_def del: upt.simps)
  qed
  from tr pt c run show ?thesis by (auto simp del: upt.simps)
qed

lemma parse_sample: "parse_org_file sample_fs ''org.txt'' = Inr (sample_heap, 0)"
  by code_simp

lemma parse_two: "parse_org_file two_fs ''two.txt'' = Inr (two_heap, 0)"
  by code_simp

text \<open>
  C3, amended: the Mermaid renderer walks the subtree of the root's first child \<open>c\<close>
  only. The nodes of that subtree, in pre-order, are the consecutive references
  \<open>c, c + 1, \<dots>\<close>; node \<open>i\<close> is given the identifier \<open>n(i - c)\<close>, so the identifiers
  are \<open>n0, n1, \<dots>\<close> in pre-order. Between the fence and the flowchart directive and
  the closing fence, the renderer prints for every node of the subtree its declaration
  line, followed for every node but \<open>c\<close> by the edge line from the identifier of its
  parent. Entries below the other children of the root get no line.
\<close>

theorem mermaid_preorder_ids:
  assumes "parse_org_file fs path = Inr (h, root)" and "children (h ! root) = c # cs"
    and "length h \<le> fuel"
  shows "\<exists>t m. tree_of (length h) h c = Some t \<and> preorder t = [c..<c + m] \<and>
           print_mermaid_flowchart fuel h root out =
              Some (out @ [''```mermaid'', ''flowchart TB''] @
                    mermaid_decl 0 (name (h ! c)) #
                    concat (map (mermaid_node h c 0) [Suc c..<c + m]) @ [''```''])"
  using print_mermaid_flowchart_parsed [OF assms(1,2)] assms(3) by blast

theorem mermaid_preorder_ids_witness:
  "parse_org_file sample_fs ''org.txt'' = Inr (sample_heap, 0) \<and>
   children (sample_heap ! 0) = 1 # [] \<and> length sample_heap \<le> 6 \<and>
   (\<exists>t m. tree_of (length sample_heap) sample_heap 1 = Some t \<and> preorder t = [1..<1 + m] \<and>
      print_mermaid_flowchart 6 sample_heap 0 [] =
        Some ([] @ [''```mermaid'', ''flowchart TB''] @
              mermaid_decl 0 (name (sample_heap ! 1)) #
              concat (map (mermaid_node sample_heap 1 0) [Suc 1..<1 + m]) @ [''```''])) \<and>
   print_mermaid_flowchart 6 sample_heap 0 [] =
     Some [''```mermaid'', ''flowchart TB'',
           mermaid_decl 0 ''CEO'',
           mermaid_decl 1 ''VP Sales'', mermaid_edge ''n0'' 1,
           mermaid_decl 2 ''Sales Rep 1'', mermaid_edge ''n1'' 2,
           mermaid_decl 3 ''VP Engineering'', mermaid_edge ''n0'' 3,
           mermaid_decl 4 ''Engineer 1'', mermaid_edge ''n3'' 4,
           ''```'']"
proof -
  have ch: "children (sample_heap ! 0) = 1 # []" by (simp add: sample_heap_def)
  have fu: "length sample_heap \<le> 6" by (simp add: sample_heap_def)
  have ev: "print_mermaid_flowchart 6 sample_heap 0 [] =
     Some [''```mermaid'', ''flowchart TB'',
           mermaid_decl 0 ''CEO'',
           mermaid_decl 1 ''VP Sales'', mermaid_edge ''n0'' 1,
           mermaid_decl 2 ''Sales Rep 1'', mermaid_edge ''n1'' 2,
           mermaid_decl 3 ''VP Engineering'', mermaid_edge ''n0'' 3,
           mermaid_decl 4 ''Engineer 1'', mermaid_edge ''n3'' 4,
           ''```'']"
    by code_simp
  from mermaid_preorder_ids [OF parse_sample ch fu, of "[]"] parse_sample ch fu ev
  show ?thesis by blast
qed

text \<open>
  On the file \<open>two.txt\<close>, the entries \<open>A\<close> and \<open>B\<close> both at the top level, the tree
  below the root has the two nodes, and the Mermaid block declares \<open>A\<close> alone.
\<close>

theorem mermaid_second_entry_counterexample:
  "parse_org_file two_fs ''two.txt'' = Inr (two_heap, 0) \<and>
   tree_of 3 two_heap 0 = Some (RNode 0 [RNode 1 [], RNode 2 []]) \<and>
   name (two_heap ! 2) = ''B'' \<and>
   print_mermaid_flowchart 3 two_heap 0 [] =
     Some [''```mermaid'', ''flowchart TB'', mermaid_decl 0 ''A'', ''```'']"
proof -
  have "tree_of 3 two_heap 0 = Some (RNode 0 [RNode 1 [], RNode 2 []])" by code_simp
  moreover have "name (two_heap ! 2) = ''B''" by (simp add: two_heap_def)
  moreover have "print_mermaid_flowchart 3 two_heap 0 [] =
     Some [''```mermaid'', ''flowchart TB'', mermaid_decl 0 ''A'', ''```'']" by code_simp
  ultimately show ?thesis using parse_two by simp
qed

text \<open>
  C9: on a parsed tree, every run of the Mermaid renderer whose recursion bound is at
  least the number of nodes returns and appends the same lines to the output, whatever
  was printed before it: a second run prints what the first printed.
\<close>

theorem mermaid_deterministic:
  assumes "parse_org_file fs path = Inr (h, root)"
  shows "\<exists>lines. \<forall>fuel \<ge> length h. \<forall>out.
           print_mermaid_flowchart fuel h root out = Some (out @ lines)"
proof (cases "children (h ! root)")
  case Nil
  then have "print_mermaid_flowchart fuel h root out = Some (out @ [])" for fuel out
    by (simp add: print_mermaid_flowchart_def)
  then show ?thesis by blast
next
  case (Cons c cs)
  from print_mermaid_flowchart_parsed [OF assms Cons] show ?thesis by blast
qed

theorem mermaid_deterministic_witness:
  "parse_org_file sample_fs ''org.txt'' = Inr (sample_heap, 0) \<and>
   (\<exists>lines. \<forall>fuel \<ge> length sample_heap. \<forall>out.
      print_mermaid_flowchart fuel sample_heap 0 out = Some (out @ lines))"
  using mermaid_deterministic [OF parse_sample] parse_sample by blast

section \<open>An entry with the text Root\<close>

lemma parse_named_root: "parse_org_file named_root_fs ''named.txt'' = Inr (named_root_heap, 0)"
  by code_simp

lemma inv_names_nth:
  assumes "inv nb T (h, st)" and "0 < i" and "i < length h"
  shows "name (h ! i) = strip (nb ! (i - 1))"
proof -
  from assms(1) have n: "map name h = ''Root'' # map strip nb" by (simp add: inv_def)
  have "name (h ! i) = map name h ! i" using assms(3) by simp
  also have "\<dots> = (''Root'' # map strip nb) ! i" by (simp only: n)
  also have "\<dots> = strip (nb ! (i - 1))"
    using assms(2,3) inv_length [OF assms(1)] by (cases i) auto
  finally show ?thesis .
qed

lemma edges_in_preorder:
  "e \<in> set (edges t) \<Longrightarrow> fst e \<in> set (preorder t) \<and> snd e \<in> set (preorder t)"
proof (induction t)
  case (RNode x ts)
  from RNode.prems obtain u where u: "u \<in> set ts" "e = (x, root_of u) \<or> e \<in> set (edges u)"
    by auto
  from u(2) show ?case
  proof
    assume e: "e = (x, root_of u)"
    have "root_of u \<in> set (concat (map preorder ts))"
      using u(1) by (auto intro!: bexI [of _ u])
    with e show ?thesis by simp
  next
    assume "e \<in> set (edges u)"
    from RNode.IH [OF u(1) this] u(1) show ?thesis by auto
  qed
qed

text \<open>
  When no entry of the file has the text \<open>Root\<close>, the lines printed from the root of
  a parsed tree are the reports-to lines of the edges of the tree that do not start
  at the root, in pre-order.
\<close>

lemma print_reporting_relationships_parsed:
  assumes p: "parse_org_file fs path = Inr (h, root)" and c: "fs path = Some content"
    and nr: "''Root'' \<notin> strip ` set (nonblank (readlines content))"
    and fu: "length h \<le> fuel"
  shows "\<exists>t. tree_of (length h) h root = Some t \<and>
           print_reporting_relationships fuel h root out =
             Some (out @ map (report_line h) (filter (\<lambda>e. fst e \<noteq> root) (edges t)))"
proof -
  let ?nb = "nonblank (readlines content)"
  from parse_org_file_inv [of fs path content, OF c] p obtain T st where
    r0: "root = 0" and i: "inv ?nb T (h, st)" by auto
  from i have tree: "is_tree h T" and root: "root_of T = 0"
    and pre: "preorder T = [0..<length h]" and p0: "parent (h ! 0) = None"
    by (auto simp: inv_def)
  have "height T \<le> length (preorder T)" by (rule height_le_size)
  with pre fu have ht: "height T \<le> fuel" by simp
  have nm: "name (h ! fst e) \<noteq> ''Root'' \<longleftrightarrow> fst e \<noteq> 0" if "e \<in> set (edges T)" for e
  proof (cases "fst e = 0")
    case True
    then show ?thesis using inv_root_name [OF i] by simp
  next
    case False
    from edges_in_preorder [OF that] pre have lt: "fst e < length h" by simp
    from inv_length [OF i] lt False have "fst e - 1 < length ?nb" by simp
    then have "strip (?nb ! (fst e - 1)) \<in> strip ` set ?nb" by simp
    with nr have "strip (?nb ! (fst e - 1)) \<noteq> ''Root''" by metis
    with inv_names_nth [OF i _ lt] False show ?thesis by simp
  qed
  then have "filter (\<lambda>e. name (h ! fst e) \<noteq> ''Root'') (edges T) = filter (\<lambda>e. fst e \<noteq> 0) (edges T)"
    by (intro filter_cong) auto
  then have rl: "report_lines h (edges T) = map (report_line h) (filter (\<lambda>e. fst e \<noteq> 0) (edges T))"
    by (simp add: report_lines_def)
  from print_reporting_relationships_tree [OF tree ht, of out] root p0
  have "print_reporting_relationships fuel h 0 out = Some (out @ report_lines h (edges T))"
    by (simp add: own_report_def)
  with rl inv_tree_of [OF i] r0 show ?thesis by simp
qed

text \<open>
  C2, on the file \<open>named.txt\<close>: the entry \<open>B\<close> is below the entry \<open>Root\<close>, which is
  not the root of the tree, and \<open>print_reporting_relationships\<close> prints no line for
  it, from the root and from the root's first child alike.
\<close>

theorem reporting_named_root:
  "parse_org_file named_root_fs ''named.txt'' = Inr (named_root_heap, 0) \<and>
   tree_of 4 named_root_heap 0 = Some (RNode 0 [RNode 1 [RNode 2 [RNode 3 []]]]) \<and>
   name (named_root_heap ! 3) = ''B'' \<and> parent (named_root_heap ! 3) = Some 2 \<and>
   print_reporting_relationships 4 named_root_heap 0 [] = Some [''Root reports to A''] \<and>
   print_reporting_relationships 4 named_root_heap 1 [] = Some [''Root reports to A'']"
proof -
  have "tree_of 4 named_root_heap 0 = Some (RNode 0 [RNode 1 [RNode 2 [RNode 3 []]]])"
    by code_simp
  moreover have "name (named_root_heap ! 3) = ''B''" "parent (named_root_heap ! 3) = Some 2"
    by (simp_all add: named_root_heap_def)
  moreover have "print_reporting_relationships 4 named_root_heap 0 [] = Some [''Root reports to A'']"
    by code_simp
  moreover have "print_reporting_relationships 4 named_root_heap 1 [] = Some [''Root reports to A'']"
    by code_simp
  ultimately show ?thesis using parse_named_root by simp
qed

text \<open>
  C5, on the same file: the image renderer declares no vertex for the entry \<open>Root\<close>,
  whose identifier \<open>node_1\<close> occurs in the edge from \<open>A\<close> only, and builds no edge from
  it to \<open>B\<close>.
\<close>

theorem graph_named_root:
  "parse_org_file named_root_fs ''named.txt'' = Inr (named_root_heap, 0) \<and>
   edges (RNode (1::nat) [RNode 2 [RNode 3 []]]) = [(1, 2), (2, 3)] \<and>
   add_nodes 4 named_root_heap 1 None Digraph =
     Some ([(''A'', ''node_0''), (''Root'', ''node_1''), (''B'', ''node_2'')],
           \<lparr>g_nodes = [(''node_0'', ''A''), (''node_2'', ''B'')],
            g_edges = [(''node_0'', ''node_1'')]\<rparr>)"
proof -
  have "edges (RNode (1::nat) [RNode 2 [RNode 3 []]]) = [(1, 2), (2, 3)]" by simp
  moreover have "add_nodes 4 named_root_heap 1 None Digraph =
     Some ([(''A'', ''node_0''), (''Root'', ''node_1''), (''B'', ''node_2'')],
           \<lparr>g_nodes = [(''node_0'', ''A''), (''node_2'', ''B'')],
            g_edges = [(''node_0'', ''node_1'')]\<rparr>)"
    by code_simp
  ultimately show ?thesis using parse_named_root by simp
qed

section \<open>Parsing a listing\<close>

lemma isspace_simps [simp]:
  "isspace CHR '' ''" "isspace CHR 0x0A" "\<not> isspace CHR ''-''"
  by (simp_all add: isspace_def)

lemma indent_spaces: "\<forall>c \<in> set (concat (replicate level ''  '')). isspace c"
  by (induction level) auto

lemma length_indent [simp]: "length (concat (replicate level ''  '')) = 2 * level"
  by (induction level) auto

lemma lstrip_listing:
  "lstrip (concat (replicate level ''  '') @ CHR ''-'' # rest) = CHR ''-'' # rest"
  using indent_spaces [of level] by (simp add: lstrip_def dropWhile_append)

lemma count_leading_spaces_listing:
  "count_leading_spaces (concat (replicate level ''  '') @ ''- '' @ rest) = 2 * int level"
  by (simp add: count_leading_spaces_def lstrip_listing)

lemma rstrip_snoc_space: "isspace c \<Longrightarrow> rstrip (s @ [c]) = rstrip s"
  by (simp add: rstrip_def)

lemma strip_listing:
  assumes "nm \<noteq> []" and "\<not> isspace (last nm)"
  shows "strip (concat (replicate level ''  '') @ ''- '' @ nm @ [CHR 0x0A]) = ''- '' @ nm"
proof -
  have "rstrip ((''- '' @ nm) @ [CHR 0x0A]) = rstrip (''- '' @ nm)"
    by (rule rstrip_snoc_space) simp
  also have "\<dots> = ''- '' @ nm" using assms by (intro rstrip_id) simp
  finally show ?thesis by (simp add: strip_def lstrip_listing)
qed

lemma splitlines_line:
  "CHR 0x0A \<notin> set l \<Longrightarrow> splitlines cur (l @ CHR 0x0A # rest) = (cur @ l @ [CHR 0x0A]) # splitlines [] rest"
  by (induction l arbitrary: cur) auto

lemma splitlines_written:
  "\<forall>l \<in> set out. CHR 0x0A \<notin> set l \<Longrightarrow>
   splitlines [] (written out) = map (\<lambda>l. l @ [CHR 0x0A]) out"
proof (induction out)
  case Nil
  then show ?case by (simp add: written_def)
next
  case (Cons l out)
  then have "splitlines [] (l @ CHR 0x0A # written out) = ([] @ l @ [CHR 0x0A]) # splitlines [] (written out)"
    by (intro splitlines_line) simp
  with Cons show ?case by (simp add: written_def)
qed

lemma universal_newlines_no_cr: "CHR 0x0D \<notin> set (universal_newlines s)"
  by (induction s rule: universal_newlines.induct) auto

lemma universal_newlines_id: "CHR 0x0D \<notin> set s \<Longrightarrow> universal_newlines s = s"
  by (induction s rule: universal_newlines.induct) auto

lemma readlines_written:
  assumes "\<forall>l \<in> set out. CHR 0x0A \<notin> set l \<and> CHR 0x0D \<notin> set l"
  shows "readlines (written out) = map (\<lambda>l. l @ [CHR 0x0A]) out"
proof -
  from assms have "CHR 0x0D \<notin> set (written out)" by (auto simp: written_def)
  then have "universal_newlines (written out) = written out" by (rule universal_newlines_id)
  with assms show ?thesis by (simp add: readlines_def splitlines_written)
qed

lemma splitlines_set: "l \<in> set (splitlines cur s) \<Longrightarrow> set l \<subseteq> set cur \<union> set s"
proof (induction s arbitrary: cur)
  case Nil
  then show ?case by (auto split: if_splits)
next
  case (Cons c s)
  show ?case
  proof (cases "c = CHR 0x0A")
    case True
    with Cons.prems have "l = cur @ [c] \<or> l \<in> set (splitlines [] s)" by simp
    then show ?thesis
    proof
      assume "l = cur @ [c]"
      then show ?thesis by auto
    next
      assume "l \<in> set (splitlines [] s)"
      from Cons.IH [OF this] show ?thesis by auto
    qed
  next
    case False
    with Cons.prems have "l \<in> set (splitlines (cur @ [c]) s)" by simp
    from Cons.IH [OF this] show ?thesis by auto
  qed
qed

lemma splitlines_no_newline:
  "l \<in> set (splitlines cur s) \<Longrightarrow> CHR 0x0A \<notin> set cur \<Longrightarrow> l \<noteq> [] \<and> CHR 0x0A \<notin> set (butlast l)"
proof (induction s arbitrary: cur)
  case Nil
  then show ?case by (auto split: if_splits dest: in_set_butlastD)
next
  case (Cons c s)
  show ?case
  proof (cases "c = CHR 0x0A")
    case True
    with Cons.prems(1) have "l = cur @ [c] \<or> l \<in> set (splitlines [] s)" by simp
    then show ?thesis
    proof
      assume "l = cur @ [c]"
      with Cons.prems(2) show ?thesis by simp
    next
      assume "l \<in> set (splitlines [] s)"
      from Cons.IH [OF this] show ?thesis by simp
    qed
  next
    case False
    with Cons.prems(1) have "l \<in> set (splitlines (cur @ [c]) s)" by simp
    from Cons.IH [OF this] False Cons.prems(2) show ?thesis by simp
  qed
qed

lemma set_rstrip: "set (rstrip s) \<subseteq> set s"
  by (auto simp: rstrip_def dest: set_dropWhileD)

lemma set_strip: "set (strip s) \<subseteq> set s"
  using set_rstrip [of "lstrip s"] by (auto simp: strip_def lstrip_def dest: set_dropWhileD)

lemma strip_snoc_space: "isspace c \<Longrightarrow> strip (s @ [c]) = strip s"
proof -
  assume c: "isspace c"
  show ?thesis
  proof (cases "\<forall>x \<in> set s. isspace x")
    case True
    with c have "lstrip (s @ [c]) = []" "lstrip s = []" by (simp_all add: lstrip_def)
    then show ?thesis by (simp add: strip_def)
  next
    case False
    then have "lstrip (s @ [c]) = lstrip s @ [c]" by (auto simp: lstrip_def dropWhile_append)
    with c show ?thesis by (simp add: strip_def rstrip_snoc_space)
  qed
qed

lemma strip_no_newline:
  assumes "CHR 0x0A \<notin> set (butlast l)"
  shows "CHR 0x0A \<notin> set (strip l)"
proof (cases l rule: rev_cases)
  case Nil
  then show ?thesis using set_strip [of l] by auto
next
  case (snoc b c)
  show ?thesis
  proof (cases "c = CHR 0x0A")
    case True
    with snoc have "strip l = strip b" by (simp add: strip_snoc_space)
    with assms snoc set_strip [of b] show ?thesis by auto
  next
    case False
    with assms snoc have "CHR 0x0A \<notin> set l" by simp
    with set_strip [of l] show ?thesis by auto
  qed
qed

lemma clean_Root [simp]: "clean ''Root''"
  by (simp add: clean_def isspace_def)

lemma inv_clean:
  assumes i: "inv (nonblank (readlines content)) T (h, st)" and lt: "n < length h"
  shows "clean (name (h ! n))"
proof (cases "n = 0")
  case True
  then show ?thesis using inv_root_name [OF i] by simp
next
  case False
  let ?nb = "nonblank (readlines content)"
  let ?l = "?nb ! (n - 1)"
  from False lt inv_length [OF i] have "n - 1 < length ?nb" by simp
  then have mem: "?l \<in> set ?nb" by simp
  then have ne: "strip ?l \<noteq> []"
    and rl: "?l \<in> set (splitlines [] (universal_newlines content))"
    by (auto simp: nonblank_def readlines_def)
  from splitlines_no_newline [OF rl] have "CHR 0x0A \<notin> set (butlast ?l)" by simp
  then have lf: "CHR 0x0A \<notin> set (strip ?l)" by (rule strip_no_newline)
  from splitlines_set [OF rl] universal_newlines_no_cr [of content]
  have "CHR 0x0D \<notin> set ?l" by auto
  with set_strip [of ?l] have "CHR 0x0D \<notin> set (strip ?l)" by auto
  with lf ne last_strip [OF ne] have "clean (strip ?l)" by (simp add: clean_def)
  with inv_names_nth [OF i _ lt] False show ?thesis by simp
qed

lemma spine_map: "spine (map_rtree f t) = map f (spine t)"
proof (induction t rule: spine.induct)
  case (1 x ts)
  show ?case
  proof (cases "ts = []")
    case True
    then show ?thesis by simp
  next
    case False
    with 1 show ?thesis by (simp add: last_map)
  qed
qed

lemma map_rtree_attach:
  "map_rtree f (attach k t' t) = attach k (map_rtree f t') (map_rtree f t)"
proof (induction k arbitrary: t)
  case 0
  then show ?case by (cases t) simp
next
  case (Suc k)
  then show ?case by (cases t) (simp add: map_butlast last_map)
qed

lemma attach_attach:
  "k < length (spine t) \<Longrightarrow>
   attach (Suc k) c (attach k (RNode x cs) t) = attach k (RNode x (cs @ [c])) t"
proof (induction k arbitrary: t)
  case 0
  then show ?case by (cases t) simp
next
  case (Suc k)
  obtain y ts where t: "t = RNode y ts" by (cases t)
  with Suc.prems have ne: "ts \<noteq> []" by (auto split: if_splits)
  with Suc.prems t have "k < length (spine (last ts))" by simp
  from Suc.IH [OF this] t ne show ?case by simp
qed

lemma spine_length_attach:
  "k < length (spine t) \<Longrightarrow> k < length (spine (attach k t' t))"
  by (simp add: spine_attach)

lemma fold_attach:
  "k < length (spine t) \<Longrightarrow>
   fold (\<lambda>c t. attach (Suc k) (g c) t) cs (attach k (RNode x done) t)
     = attach k (RNode x (done @ map g cs)) t"
proof (induction cs arbitrary: "done")
  case Nil
  then show ?case by simp
next
  case (Cons c cs)
  from Cons.prems have "attach (Suc k) (g c) (attach k (RNode x done) t)
      = attach k (RNode x (done @ [g c])) t" by (rule attach_attach)
  with Cons.IH [OF Cons.prems, of "done @ [g c]"] show ?case by simp
qed

lemma parse_lines_append:
  "parse_lines s (xs @ ys) =
     (case parse_lines s xs of Inl e \<Rightarrow> Inl e | Inr s' \<Rightarrow> parse_lines s' ys)"
  by (induction xs arbitrary: s) (auto split: sum.splits)

lemma pop_while_pop_while: "b \<le> a \<Longrightarrow> pop_while (pop_while st a) b = pop_while st b"
  by (induction st a rule: pop_while.induct) auto

lemma set_rtree_preorder: "set_rtree t = set (preorder t)"
  by (induction t) auto

lemma names_of_agree:
  "(\<And>i. i \<in> set (preorder t) \<Longrightarrow> name (h' ! i) = name (h ! i)) \<Longrightarrow>
   names_of h' t = names_of h t"
  unfolding names_of_def by (rule rtree.map_cong) (simp_all add: set_rtree_preorder)

lemma listed_RNode:
  "listed level (RNode x cs) =
     (concat (replicate level ''  '') @ ''- '' @ x @ [CHR 0x0A]) # concat (map (listed (Suc level)) cs)"
  by (simp add: listed_def [abs_def] map_concat comp_def)

lemma parse_listed_forest:
  assumes each: "\<And>c nb T h st. c \<in> set cs \<Longrightarrow> inv nb T (h, st) \<Longrightarrow>
      \<exists>nb' T' h' st'. parse_lines (h, st) (listed lv c) = Inr (h', st') \<and>
        inv nb' T' (h', st') \<and>
        names_of h' T' = attach (length (pop_while st d) - 1) (dashed c) (names_of h T) \<and>
        pop_while st' d = pop_while st d"
    and i: "inv nb T (h, st)"
  shows "\<exists>nb' T' h' st'. parse_lines (h, st) (concat (map (listed lv) cs)) = Inr (h', st') \<and>
        inv nb' T' (h', st') \<and>
        names_of h' T' =
          fold (\<lambda>c t. attach (length (pop_while st d) - 1) (dashed c) t) cs (names_of h T) \<and>
        pop_while st' d = pop_while st d"
  using each i
proof (induction cs arbitrary: nb T h st)
  case Nil
  then show ?case by auto
next
  case (Cons c cs)
  from Cons.prems(1) [OF _ Cons.prems(2), of c] obtain nb1 T1 h1 st1 where
    1: "parse_lines (h, st) (listed lv c) = Inr (h1, st1)" "inv nb1 T1 (h1, st1)"
       "names_of h1 T1 = attach (length (pop_while st d) - 1) (dashed c) (names_of h T)"
       "pop_while st1 d = pop_while st d"
    by auto
  have "\<exists>nb' T' h' st'. parse_lines (h1, st1) (concat (map (listed lv) cs)) = Inr (h', st') \<and>
        inv nb' T' (h', st') \<and>
        names_of h' T' =
          fold (\<lambda>c t. attach (length (pop_while st1 d) - 1) (dashed c) t) cs (names_of h1 T1) \<and>
        pop_while st' d = pop_while st1 d"
  proof (rule Cons.IH [OF _ 1(2)])
    fix c' nb' T' h' st'
    assume "c' \<in> set cs" "inv nb' T' (h', st')"
    then show "\<exists>nb'' T'' h'' st''. parse_lines (h', st') (listed lv c') = Inr (h'', st'') \<and>
        inv nb'' T'' (h'', st'') \<and>
        names_of h'' T'' = attach (length (pop_while st' d) - 1) (dashed c') (names_of h' T') \<and>
        pop_while st'' d = pop_while st' d"
      using Cons.prems(1) [of c' nb' T' h' st'] by simp
  qed
  then obtain nb2 T2 h2 st2 where
    2: "parse_lines (h1, st1) (concat (map (listed lv) cs)) = Inr (h2, st2)" "inv nb2 T2 (h2, st2)"
       "names_of h2 T2 =
          fold (\<lambda>c t. attach (length (pop_while st1 d) - 1) (dashed c) t) cs (names_of h1 T1)"
       "pop_while st2 d = pop_while st1 d"
    by auto
  have "parse_lines (h, st) (concat (map (listed lv) (c # cs))) = Inr (h2, st2)"
    using 1(1) 2(1) by (simp add: parse_lines_append)
  moreover have "names_of h2 T2 =
      fold (\<lambda>c t. attach (length (pop_while st d) - 1) (dashed c) t) (c # cs) (names_of h T)"
    using 2(3) 1(3,4) by simp
  moreover have "pop_while st2 d = pop_while st d" using 2(4) 1(4) by simp
  ultimately show ?case using 2(2) by blast
qed

lemma parse_listed:
  assumes "\<forall>nm \<in> set_rtree u. clean nm" and "inv nb T (h, st)"
  shows "\<exists>nb' T' h' st'. parse_lines (h, st) (listed level u) = Inr (h', st') \<and>
        inv nb' T' (h', st') \<and>
        names_of h' T' =
          attach (length (pop_while st (2 * int level)) - 1) (dashed u) (names_of h T) \<and>
        pop_while st' (2 * int level) = pop_while st (2 * int level)"
  using assms
proof (induction u arbitrary: level nb T h st)
  case (RNode x cs)
  let ?l0 = "concat (replicate level ''  '') @ ''- '' @ x @ [CHR 0x0A]"
  define d where "d = 2 * int level"
  define d' where "d' = 2 * int (Suc level)"
  define st1 where "st1 = pop_while st d"
  define k where "k = length st1 - 1"
  define n where "n = length h"
  define nd where "nd = OrgNode_init (strip ?l0)"
  define h1 where "h1 = add_child (h @ [nd]) (fst (hd st1)) n"
  define T1 where "T1 = attach k (RNode n []) T"
  define str where "str = (n, d) # st1"
  from RNode.prems(1) have cx: "clean x" by simp
  then have sl: "strip ?l0 = ''- '' @ x" by (intro strip_listing) (simp_all add: clean_def)
  then have ne: "strip ?l0 \<noteq> []" by simp
  have cl: "count_leading_spaces ?l0 = d"
    unfolding d_def by (rule count_leading_spaces_listing)
  from inv_step [OF RNode.prems(2) ne]
  have st1ne: "st1 \<noteq> []" and pl: "parse_line (h, st) ?l0 = Inr (h1, str)"
    and i1: "inv (nb @ [?l0]) T1 (h1, str)"
    unfolding cl by (simp_all add: st1_def h1_def nd_def n_def k_def T1_def str_def)
  from RNode.prems(2) have pre: "preorder T = [0..<n]"
    and stk: "map fst st = rev (spine T)" by (auto simp: inv_def n_def)
  have old: "name (h1 ! i) = name (h ! i)" if "i \<in> set (preorder T)" for i
    using that pre by (simp add: h1_def nth_append n_def)
  have "name nd = strip ?l0"
    unfolding nd_def OrgNode_init_def by (simp only: OrgNode.select_convs strip_strip)
  then have "name nd = ''- '' @ x" by (simp only: sl)
  then have new: "name (h1 ! n) = ''- '' @ x"
    by (simp add: h1_def n_def)
  have "names_of h1 T1 = attach k (RNode (name (h1 ! n)) []) (names_of h1 T)"
    by (simp add: T1_def names_of_def map_rtree_attach)
  also have "names_of h1 T = names_of h T" by (rule names_of_agree) (rule old)
  finally have names1: "names_of h1 T1 = attach k (RNode (''- '' @ x) []) (names_of h T)"
    by (simp add: new)
  obtain pr where pr: "st = pr @ st1" unfolding st1_def using pop_while_split by blast
  have "length (spine (names_of h T)) = length (spine T)"
    by (simp add: names_of_def spine_map)
  also have "\<dots> = length st" using stk by (metis length_map length_rev)
  finally have "length (spine (names_of h T)) = length pr + length st1"
    using pr by simp
  moreover have "0 < length st1" using st1ne by simp
  ultimately have klt: "k < length (spine (names_of h T))"
    unfolding k_def by linarith
  have each: "\<exists>nb' T' h' st'. parse_lines (h, st) (listed (Suc level) c) = Inr (h', st') \<and>
        inv nb' T' (h', st') \<and>
        names_of h' T' = attach (length (pop_while st d') - 1) (dashed c) (names_of h T) \<and>
        pop_while st' d' = pop_while st d'"
    if "c \<in> set cs" "inv nb T (h, st)" for c nb T h st
  proof -
    from RNode.prems(1) that(1) have "\<forall>nm \<in> set_rtree c. clean nm" by auto
    from RNode.IH [OF that(1) this that(2), of "Suc level"] show ?thesis
      by (simp add: d'_def)
  qed
  have "\<exists>nb' T' h' st'. parse_lines (h1, str) (concat (map (listed (Suc level)) cs)) = Inr (h', st') \<and>
        inv nb' T' (h', st') \<and>
        names_of h' T' =
          fold (\<lambda>c t. attach (length (pop_while str d') - 1) (dashed c) t) cs (names_of h1 T1) \<and>
        pop_while st' d' = pop_while str d'"
  proof (rule parse_listed_forest [OF _ i1])
    fix c nb T h st
    assume "c \<in> set cs" "inv nb T (h, st)"
    then show "\<exists>nb' T' h' st'. parse_lines (h, st) (listed (Suc level) c) = Inr (h', st') \<and>
        inv nb' T' (h', st') \<and>
        names_of h' T' = attach (length (pop_while st d') - 1) (dashed c) (names_of h T) \<and>
        pop_while st' d' = pop_while st d'"
      by (rule each)
  qed
  then obtain nb2 T2 h2 st2 where
    2: "parse_lines (h1, str) (concat (map (listed (Suc level)) cs)) = Inr (h2, st2)"
       "inv nb2 T2 (h2, st2)"
       "names_of h2 T2 =
          fold (\<lambda>c t. attach (length (pop_while str d') - 1) (dashed c) t) cs (names_of h1 T1)"
       "pop_while st2 d' = pop_while str d'"
    by blast
  have dd: "d < d'" "d \<le> d'" by (simp_all add: d_def d'_def)
  then have ps: "pop_while str d' = str" by (simp add: str_def)
  have ls: "length str - 1 = Suc k" using st1ne by (simp add: str_def k_def)
  have "names_of h2 T2 =
      fold (\<lambda>c t. attach (Suc k) (dashed c) t) cs (attach k (RNode (''- '' @ x) []) (names_of h T))"
    using 2(3) by (simp only: ps ls names1)
  also have "\<dots> = attach k (RNode (''- '' @ x) ([] @ map dashed cs)) (names_of h T)"
    using klt by (rule fold_attach)
  also have "RNode (''- '' @ x) ([] @ map dashed cs) = dashed (RNode x cs)"
    by (simp add: dashed_def)
  finally have names2: "names_of h2 T2 = attach k (dashed (RNode x cs)) (names_of h T)" .
  have "pop_while st2 d = pop_while (pop_while st2 d') d"
    using dd(2) by (simp add: pop_while_pop_while)
  also have "\<dots> = pop_while str d" by (simp only: 2(4) ps)
  also have "\<dots> = pop_while st1 d" by (simp add: str_def)
  also have "\<dots> = st1" by (simp add: st1_def pop_while_pop_while)
  finally have pop2: "pop_while st2 d = st1" .
  have "parse_lines (h, st) (listed level (RNode x cs)) = Inr (h2, st2)"
    using pl 2(1) by (simp add: listed_RNode)
  with 2(2) names2 pop2 show ?case
    unfolding k_def st1_def d_def by blast
qed

lemma subtree_exists:
  "is_tree h T \<Longrightarrow> n \<in> set (preorder T) \<Longrightarrow>
   \<exists>t. is_tree h t \<and> root_of t = n \<and> height t \<le> height T \<and>
       set (preorder t) \<subseteq> set (preorder T)"
proof (induction T)
  case (RNode x ts)
  show ?case
  proof (cases "n = x")
    case True
    with RNode.prems(1) show ?thesis by (intro exI [of _ "RNode x ts"]) simp
  next
    case False
    with RNode.prems(2) obtain u where u: "u \<in> set ts" "n \<in> set (preorder u)" by auto
    with RNode.prems(1) have "is_tree h u" by simp
    from RNode.IH [OF u(1) this u(2)] obtain t where
      t: "is_tree h t" "root_of t = n" "height t \<le> height u"
         "set (preorder t) \<subseteq> set (preorder u)" by blast
    from t(3) height_subtree [OF u(1)] have "height t \<le> height (RNode x ts)" by simp
    moreover from t(4) u(1) have "set (preorder t) \<subseteq> set (preorder (RNode x ts))" by auto
    ultimately show ?thesis using t(1,2) by blast
  qed
qed

lemma listing_no_char:
  "(\<And>nm. nm \<in> set_rtree u \<Longrightarrow> a \<notin> set nm) \<Longrightarrow> a \<noteq> CHR '' '' \<Longrightarrow> a \<noteq> CHR ''-'' \<Longrightarrow>
   l \<in> set (listing level u) \<Longrightarrow> a \<notin> set l"
proof (induction u arbitrary: level)
  case (RNode x cs)
  from RNode.prems(4) consider "l = concat (replicate level ''  '') @ ''- '' @ x"
    | c where "c \<in> set cs" "l \<in> set (listing (Suc level) c)" by auto
  then show ?case
  proof cases
    case 1
    have "a \<notin> set (concat (replicate level ''  ''))"
      using RNode.prems(2) by (induction level) auto
    moreover have "a \<notin> set x" using RNode.prems(1) by simp
    ultimately show ?thesis using 1 RNode.prems(2,3) by simp
  next
    case 2
    show ?thesis
    proof (rule RNode.IH [OF 2(1) _ RNode.prems(2,3) 2(2)])
      fix nm assume "nm \<in> set_rtree c"
      with 2(1) show "a \<notin> set nm" using RNode.prems(1) by auto
    qed
  qed
qed

text \<open>
  C6: on a parsed tree, the indented listing of any node \<open>n\<close> (the driver lists the
  root's first child) returns when the recursion bound is at least the number of nodes.
  Written to a file, a newline after every printed line, and parsed again, it gives a
  tree whose root has exactly one child; the tree below that child is the listed tree
  with \<open>- \<close> put before every name, and so has the shape of the listed tree.
\<close>

theorem listing_round_trip:
  assumes p: "parse_org_file fs path = Inr (h, root)" and n: "n < length h"
    and fu: "length h \<le> fuel"
  shows "\<exists>t out. tree_of (length h) h n = Some t \<and>
           print_org_chart fuel h n 0 [] = Some out \<and> out = listing 0 (names_of h t) \<and>
           (\<exists>h2 t2. parse_org_file (fs(path2 \<mapsto> written out)) path2 = Inr (h2, 0) \<and>
              tree_of (length h2) h2 0 = Some (RNode 0 [t2]) \<and>
              names_of h2 t2 = dashed (names_of h t) \<and>
              map_rtree (\<lambda>_. ()) t2 = map_rtree (\<lambda>_. ()) t)"
proof -
  from p obtain content where c: "fs path = Some content"
    by (auto simp: parse_org_file_def split: option.splits)
  let ?nb = "nonblank (readlines content)"
  from parse_org_file_inv [of fs path content, OF c] p obtain T st where
    i: "inv ?nb T (h, st)" by auto
  from i have tree: "is_tree h T" and pre: "preorder T = [0..<length h]"
    by (auto simp: inv_def)
  from n pre have "n \<in> set (preorder T)" by simp
  from subtree_exists [OF tree this] obtain t where
    t: "is_tree h t" "root_of t = n" "height t \<le> height T"
       "set (preorder t) \<subseteq> set (preorder T)" by blast
  have "height T \<le> length (preorder T)" by (rule height_le_size)
  with t(3) pre have ht: "height t \<le> length h" by simp
  from tree_of_is_tree [OF t(1) ht] t(2) have tr: "tree_of (length h) h n = Some t" by simp
  define u where "u = names_of h t"
  define out where "out = listing 0 u"
  from ht fu have "height t \<le> fuel" by simp
  from print_org_chart_tree [OF t(1) this, of 0 "[]"] t(2)
  have run: "print_org_chart fuel h n 0 [] = Some out" by (simp add: out_def u_def)
  have cl: "clean nm" if "nm \<in> set_rtree u" for nm
  proof -
    from that have "nm \<in> (\<lambda>i. name (h ! i)) ` set_rtree t"
      by (simp add: u_def names_of_def rtree.set_map)
    then obtain k where "k \<in> set_rtree t" and k2: "nm = name (h ! k)" by auto
    then have k: "k \<in> set (preorder t)" "nm = name (h ! k)"
      by (simp_all add: set_rtree_preorder)
    from k(1) t(4) pre have "k < length h" by auto
    from inv_clean [OF i this] k(2) show ?thesis by simp
  qed
  have "CHR 0x0A \<notin> set l \<and> CHR 0x0D \<notin> set l" if "l \<in> set out" for l
  proof
    show "CHR 0x0A \<notin> set l"
      by (rule listing_no_char [of u _ _ 0])
        (use cl that in \<open>auto simp: clean_def out_def\<close>)
    show "CHR 0x0D \<notin> set l"
      by (rule listing_no_char [of u _ _ 0])
        (use cl that in \<open>auto simp: clean_def out_def\<close>)
  qed
  then have "readlines (written out) = map (\<lambda>l. l @ [CHR 0x0A]) out"
    by (intro readlines_written) simp
  then have rl: "readlines (written out) = listed 0 u"
    by (simp add: listed_def out_def)
  from parse_listed [of u "[]" "RNode 0 []" "fst parse_init" "snd parse_init" 0] cl inv_init
  obtain nb2 T2 h2 st2 where
    2: "parse_lines parse_init (listed 0 u) = Inr (h2, st2)" "inv nb2 T2 (h2, st2)"
       "names_of h2 T2 =
          attach (length (pop_while (snd parse_init) (2 * int 0)) - 1) (dashed u)
            (names_of (fst parse_init) (RNode 0 []))"
    by auto
  have "names_of (fst parse_init) (RNode 0 []) = RNode ''Root'' []"
    by (simp add: names_of_def parse_init_def OrgNode_init_def)
  with 2(3) have n2: "names_of h2 T2 = RNode ''Root'' [dashed u]"
    by (simp add: parse_init_def)
  from 2(2) have r2: "root_of T2 = 0" by (simp add: inv_def)
  from n2 r2 obtain t2 where T2: "T2 = RNode 0 [t2]" and nt2: "names_of h2 t2 = dashed u"
    by (cases T2) (auto simp: names_of_def)
  have p2: "parse_org_file (fs(path2 \<mapsto> written out)) path2 = Inr (h2, 0)"
    using 2(1) rl by (simp add: parse_org_file_def)
  have tr2: "tree_of (length h2) h2 0 = Some (RNode 0 [t2])"
    using inv_tree_of [OF 2(2)] T2 by simp
  have "map_rtree (\<lambda>_. ()) t2 = map_rtree (\<lambda>_. ()) (names_of h2 t2)"
    by (simp add: names_of_def rtree.map_comp comp_def)
  also have "\<dots> = map_rtree (\<lambda>_. ()) (dashed u)" by (simp only: nt2)
  also have "\<dots> = map_rtree (\<lambda>_. ()) t"
    by (simp add: dashed_def u_def names_of_def rtree.map_comp comp_def)
  finally have sh: "map_rtree (\<lambda>_. ()) t2 = map_rtree (\<lambda>_. ()) t" .
  from tr run p2 tr2 nt2 sh show ?thesis unfolding out_def u_def by blast
qed

theorem listing_round_trip_witness:
  "parse_org_file sample_fs ''org.txt'' = Inr (sample_heap, 0) \<and>
   1 < length sample_heap \<and> length sample_heap \<le> 6 \<and>
   print_org_chart 6 sample_heap 1 0 [] =
     Some [''- CEO'', ''  - VP Sales'', ''    - Sales Rep 1'', ''  - VP Engineering'',
           ''    - Engineer 1''] \<and>
   (\<exists>t out. tree_of (length sample_heap) sample_heap 1 = Some t \<and>
      print_org_chart 6 sample_heap 1 0 [] = Some out \<and>
      out = listing 0 (names_of sample_heap t) \<and>
      (\<exists>h2 t2. parse_org_file (sample_fs(''listing.txt'' \<mapsto> written out)) ''listing.txt''
                   = Inr (h2, 0) \<and>
         tree_of (length h2) h2 0 = Some (RNode 0 [t2]) \<and>
         names_of h2 t2 = dashed (names_of sample_heap t) \<and>
         map_rtree (\<lambda>_. ()) t2 = map_rtree (\<lambda>_. ()) t))"
proof -
  have n: "1 < length sample_heap" and fu: "length sample_heap \<le> 6"
    by (simp_all add: sample_heap_def)
  have ev: "print_org_chart 6 sample_heap 1 0 [] =
     Some [''- CEO'', ''  - VP Sales'', ''    - Sales Rep 1'', ''  - VP Engineering'',
           ''    - Engineer 1'']"
    by code_simp
  from listing_round_trip [OF parse_sample n fu, of "''listing.txt''"] parse_sample n fu ev
  show ?thesis by blast
qed

section \<open>The graph of the image renderer\<close>

lemma assign_id_idem [simp]: "assign_id (assign_id d k) k = assign_id d k"
  by (auto simp: assign_id_def)

lemma keys_assign_id [simp]: "fst ` set (assign_id d k) = insert k (fst ` set d)"
  by (auto simp: assign_id_def)

lemma lookup_assign_id: "k' \<in> fst ` set d \<Longrightarrow> lookup (assign_id d k) k' = lookup d k'"
proof -
  assume "k' \<in> fst ` set d"
  then have "k' \<in> dom (map_of d)" by (simp add: dom_map_of_conv_image_fst)
  then obtain v where "map_of d k' = Some v" by auto
  then show ?thesis by (auto simp: assign_id_def lookup_def map_add_def split: option.split)
qed

lemma keys_assign_all [simp]:
  "fst ` set (assign_all h is d) = fst ` set d \<union> (\<lambda>i. name (h ! i)) ` set is"
  unfolding assign_all_def by (induction "is" arbitrary: d) auto

lemma lookup_assign_all:
  "k' \<in> fst ` set d \<Longrightarrow> lookup (assign_all h is d) k' = lookup d k'"
  unfolding assign_all_def
proof (induction "is" arbitrary: d)
  case Nil
  then show ?case by simp
next
  case (Cons i "is")
  from Cons.prems have "k' \<in> fst ` set (assign_id d (name (h ! i)))" by simp
  from Cons.IH [OF this] Cons.prems show ?case by (simp add: lookup_assign_id)
qed

lemma assign_all_append:
  "assign_all h (xs @ ys) d = assign_all h ys (assign_all h xs d)"
  by (simp add: assign_all_def)

lemma assign_all_Cons: "assign_all h (i # is) d = assign_all h is (assign_id d (name (h ! i)))"
  by (simp add: assign_all_def)

lemma vertex_calls_later:
  "(\<And>i. i \<in> set is \<Longrightarrow> name (h ! i) \<in> fst ` set d) \<Longrightarrow>
   vertex_calls (assign_all h js d) h is = vertex_calls d h is"
  by (simp add: vertex_calls_def lookup_assign_all)

lemma edge_calls_later:
  "(\<And>e. e \<in> set es \<Longrightarrow> name (h ! fst e) \<in> fst ` set d \<and> name (h ! snd e) \<in> fst ` set d) \<Longrightarrow>
   edge_calls (assign_all h js d) h es = edge_calls d h es"
  by (simp add: edge_calls_def lookup_assign_all)

lemma vertex_calls_append [simp]:
  "vertex_calls d h (xs @ ys) = vertex_calls d h xs @ vertex_calls d h ys"
  by (simp add: vertex_calls_def)

lemma edge_calls_append [simp]:
  "edge_calls d h (xs @ ys) = edge_calls d h xs @ edge_calls d h ys"
  by (simp add: edge_calls_def)

lemma with_calls_with_calls:
  "with_calls (with_calls dot vs es) vs' es' = with_calls dot (vs @ vs') (es @ es')"
  by (simp add: with_calls_def)

lemma add_nodes_forest:
  assumes each: "\<And>t ids dot. t \<in> set ts \<Longrightarrow>
      add_nodes f h (root_of t) (Some ids) dot =
        Some (assign_all h (preorder t) ids,
              with_calls dot (vertex_calls (assign_all h (preorder t) ids) h (preorder t))
                (edge_calls (assign_all h (preorder t) ids) h (edges t)))"
    and x: "name (h ! x) \<in> fst ` set ids0" and cid: "cid = lookup ids0 (name (h ! x))"
  shows "for_each (\<lambda>child s. case s of (ids', dot') \<Rightarrow>
             let ids2 = assign_id ids' (name (h ! child));
                 child_id = lookup ids2 (name (h ! child));
                 dot2 = dot'\<lparr>g_edges := g_edges dot' @ [(cid, child_id)]\<rparr>
             in add_nodes f h child (Some ids2) dot2)
           (map root_of ts) (ids0, dot0)
         = Some (assign_all h (concat (map preorder ts)) ids0,
                 with_calls dot0
                   (vertex_calls (assign_all h (concat (map preorder ts)) ids0) h
                      (concat (map preorder ts)))
                   (edge_calls (assign_all h (concat (map preorder ts)) ids0) h
                      (concat (map (\<lambda>t. (x, root_of t) # edges t) ts))))"
  using each x cid
proof (induction ts arbitrary: ids0 dot0)
  case Nil
  then show ?case by (simp add: assign_all_def with_calls_def vertex_calls_def edge_calls_def)
next
  case (Cons t ts)
  let ?body = "\<lambda>child s. case s of (ids', dot') \<Rightarrow>
             let ids2 = assign_id ids' (name (h ! child));
                 child_id = lookup ids2 (name (h ! child));
                 dot2 = dot'\<lparr>g_edges := g_edges dot' @ [(cid, child_id)]\<rparr>
             in add_nodes f h child (Some ids2) dot2"
  define c where "c = root_of t"
  define R where "R = concat (map preorder ts)"
  define E where "E = concat (map (\<lambda>t. (x, root_of t) # edges t) ts)"
  define ids2 where "ids2 = assign_id ids0 (name (h ! c))"
  define ids1 where "ids1 = assign_all h (preorder t) ids2"
  define idsF where "idsF = assign_all h R ids1"
  define dot2 where "dot2 = dot0\<lparr>g_edges := g_edges dot0 @ [(cid, lookup ids2 (name (h ! c)))]\<rparr>"
  define dot1 where "dot1 = with_calls dot2 (vertex_calls ids1 h (preorder t)) (edge_calls ids1 h (edges t))"
  obtain rest where pt: "preorder t = c # rest" by (cases t) (simp add: c_def)
  have ids1': "ids1 = assign_all h (preorder t) ids0"
    by (simp add: ids1_def ids2_def pt assign_all_Cons)
  have idsF': "idsF = assign_all h (concat (map preorder (t # ts))) ids0"
    by (simp add: idsF_def ids1' R_def assign_all_append)
  have first: "add_nodes f h c (Some ids2) dot2 = Some (ids1, dot1)"
    unfolding c_def ids1_def dot1_def by (rule Cons.prems(1)) simp
  have x1: "name (h ! x) \<in> fst ` set ids1" using Cons.prems(2) by (simp add: ids1')
  have cid1: "cid = lookup ids1 (name (h ! x))"
    using Cons.prems(2,3) by (simp add: ids1' lookup_assign_all)
  have rest: "for_each ?body (map root_of ts) (ids1, dot1)
      = Some (idsF, with_calls dot1 (vertex_calls idsF h R) (edge_calls idsF h E))"
    unfolding idsF_def R_def E_def
  proof (rule Cons.IH [OF _ x1 cid1])
    fix t' ids dot
    assume "t' \<in> set ts"
    then have "t' \<in> set (t # ts)" by simp
    then show "add_nodes f h (root_of t') (Some ids) dot =
        Some (assign_all h (preorder t') ids,
              with_calls dot (vertex_calls (assign_all h (preorder t') ids) h (preorder t'))
                (edge_calls (assign_all h (preorder t') ids) h (edges t')))"
      by (rule Cons.prems(1))
  qed
  have v1: "vertex_calls ids1 h (preorder t) = vertex_calls idsF h (preorder t)"
    unfolding idsF_def by (rule vertex_calls_later [symmetric]) (simp add: ids1_def)
  have e1: "edge_calls ids1 h (edges t) = edge_calls idsF h (edges t)"
    unfolding idsF_def
  proof (rule edge_calls_later [symmetric])
    fix e assume "e \<in> set (edges t)"
    from edges_in_preorder [OF this]
    show "name (h ! fst e) \<in> fst ` set ids1 \<and> name (h ! snd e) \<in> fst ` set ids1"
      by (simp add: ids1_def)
  qed
  have lx: "cid = lookup idsF (name (h ! x))"
    using x1 cid1 by (simp add: idsF_def lookup_assign_all)
  have "lookup idsF (name (h ! c)) = lookup ids1 (name (h ! c))"
    unfolding idsF_def by (rule lookup_assign_all) (simp add: ids1_def ids2_def)
  also have "\<dots> = lookup ids2 (name (h ! c))"
    unfolding ids1_def by (rule lookup_assign_all) (simp add: ids2_def)
  finally have lc: "lookup ids2 (name (h ! c)) = lookup idsF (name (h ! c))" by simp
  have d2: "dot2 = with_calls dot0 [] (edge_calls idsF h [(x, c)])"
    by (simp add: dot2_def with_calls_def edge_calls_def lx [symmetric] lc)
  have "with_calls dot1 (vertex_calls idsF h R) (edge_calls idsF h E)
      = with_calls dot0 (vertex_calls idsF h (preorder t) @ vertex_calls idsF h R)
          (edge_calls idsF h [(x, c)] @ edge_calls idsF h (edges t) @ edge_calls idsF h E)"
    by (simp add: dot1_def d2 v1 e1 with_calls_with_calls)
  also have "\<dots> = with_calls dot0 (vertex_calls idsF h (preorder t @ R))
          (edge_calls idsF h ((x, c) # edges t @ E))"
    by (simp add: edge_calls_def)
  finally have "with_calls dot1 (vertex_calls idsF h R) (edge_calls idsF h E)
      = with_calls dot0 (vertex_calls idsF h (preorder t @ R))
          (edge_calls idsF h ((x, c) # edges t @ E))" .
  with rest have "for_each ?body (map root_of ts) (ids1, dot1)
      = Some (idsF, with_calls dot0 (vertex_calls idsF h (preorder t @ R))
          (edge_calls idsF h ((x, c) # edges t @ E)))" by simp
  with first have lhs: "for_each ?body (map root_of (t # ts)) (ids0, dot0)
      = Some (idsF, with_calls dot0 (vertex_calls idsF h (preorder t @ R))
          (edge_calls idsF h ((x, c) # edges t @ E)))"
    by (simp add: c_def ids2_def dot2_def Let_def)
  show ?case unfolding lhs by (simp add: idsF' R_def E_def c_def)
qed

lemma add_nodes_tree:
  "is_tree h t \<Longrightarrow> height t \<le> fuel \<Longrightarrow> (\<forall>i \<in> set (preorder t). name (h ! i) \<noteq> ''Root'') \<Longrightarrow>
   add_nodes fuel h (root_of t) (Some ids) dot =
     Some (assign_all h (preorder t) ids,
           with_calls dot (vertex_calls (assign_all h (preorder t) ids) h (preorder t))
             (edge_calls (assign_all h (preorder t) ids) h (edges t)))"
proof (induction t arbitrary: fuel ids dot)
  case (RNode x ts)
  from RNode.prems(2) obtain f where fuel: "fuel = Suc f" by (cases fuel) auto
  define R where "R = concat (map preorder ts)"
  define E where "E = concat (map (\<lambda>t. (x, root_of t) # edges t) ts)"
  define ids1 where "ids1 = assign_id ids (name (h ! x))"
  define cid where "cid = lookup ids1 (name (h ! x))"
  define dot1 where "dot1 = dot\<lparr>g_nodes := g_nodes dot @ [(cid, name (h ! x))]\<rparr>"
  define idsF where "idsF = assign_all h R ids1"
  have each: "add_nodes f h (root_of t) (Some ids) dot =
        Some (assign_all h (preorder t) ids,
              with_calls dot (vertex_calls (assign_all h (preorder t) ids) h (preorder t))
                (edge_calls (assign_all h (preorder t) ids) h (edges t)))"
    if "t \<in> set ts" for t ids dot
  proof (rule RNode.IH [OF that])
    show "is_tree h t" using RNode.prems(1) that by simp
    show "height t \<le> f" using height_subtree [OF that] RNode.prems(2) fuel by simp
    show "\<forall>i \<in> set (preorder t). name (h ! i) \<noteq> ''Root''" using RNode.prems(3) that by auto
  qed
  have x1: "name (h ! x) \<in> fst ` set ids1" by (simp add: ids1_def)
  have loop: "for_each (\<lambda>child s. case s of (ids', dot') \<Rightarrow>
             let ids2 = assign_id ids' (name (h ! child));
                 child_id = lookup ids2 (name (h ! child));
                 dot2 = dot'\<lparr>g_edges := g_edges dot' @ [(cid, child_id)]\<rparr>
             in add_nodes f h child (Some ids2) dot2)
           (map root_of ts) (ids1, dot1)
         = Some (idsF, with_calls dot1 (vertex_calls idsF h R) (edge_calls idsF h E))"
    unfolding idsF_def R_def E_def
    by (rule add_nodes_forest [OF each x1 cid_def]) simp
  have idsF': "idsF = assign_all h (preorder (RNode x ts)) ids"
    by (simp add: idsF_def ids1_def R_def assign_all_Cons)
  have "cid = lookup idsF (name (h ! x))"
    using x1 by (simp add: cid_def idsF_def lookup_assign_all)
  then have "with_calls dot1 (vertex_calls idsF h R) (edge_calls idsF h E)
      = with_calls dot (vertex_calls idsF h (x # R)) (edge_calls idsF h E)"
    by (simp add: dot1_def with_calls_def vertex_calls_def)
  with loop have run: "for_each (\<lambda>child s. case s of (ids', dot') \<Rightarrow>
             let ids2 = assign_id ids' (name (h ! child));
                 child_id = lookup ids2 (name (h ! child));
                 dot2 = dot'\<lparr>g_edges := g_edges dot' @ [(cid, child_id)]\<rparr>
             in add_nodes f h child (Some ids2) dot2)
           (map root_of ts) (ids1, dot1)
         = Some (idsF, with_calls dot (vertex_calls idsF h (x # R)) (edge_calls idsF h E))"
    by simp
  from RNode.prems(1) have ch: "children (h ! x) = map root_of ts" by simp
  from RNode.prems(3) have nr: "name (h ! x) \<noteq> ''Root''" by simp
  have "add_nodes fuel h x (Some ids) dot
      = Some (idsF, with_calls dot (vertex_calls idsF h (x # R)) (edge_calls idsF h E))"
    using run by (simp add: fuel ch nr Let_def ids1_def cid_def dot1_def)
  then show ?case by (simp add: idsF' R_def E_def)
qed

lemma str_nat_nonempty [simp]: "str_nat n \<noteq> []"
  by (subst str_nat.simps) simp

lemma digit_inj:
  assumes "a < 10" "b < 10" "(char_of (48 + a) :: char) = char_of (48 + b)"
  shows "a = (b::nat)"
proof -
  from assms(3) have "of_char (char_of (48 + a) :: char) = (of_char (char_of (48 + b) :: char) :: nat)"
    by simp
  with assms(1,2) show ?thesis by simp
qed

lemma str_nat_inj: "str_nat n = str_nat m \<Longrightarrow> n = m"
proof (induction n arbitrary: m rule: less_induct)
  case (less n)
  show ?case
  proof (cases "n < 10")
    case n: True
    show ?thesis
    proof (cases "m < 10")
      case True
      with n less.prems show ?thesis
        by (subst (asm) str_nat.simps, subst (asm) (2) str_nat.simps) (auto dest: digit_inj)
    next
      case False
      from less.prems have "length (str_nat n) = length (str_nat m)" by simp
      with n False show ?thesis
        by (subst (asm) str_nat.simps, subst (asm) (2) str_nat.simps) simp
    qed
  next
    case n: False
    show ?thesis
    proof (cases "m < 10")
      case True
      from less.prems have "length (str_nat n) = length (str_nat m)" by simp
      with n True show ?thesis
        by (subst (asm) str_nat.simps, subst (asm) (2) str_nat.simps) simp
    next
      case False
      have sn: "str_nat n = str_nat (n div 10) @ [char_of (48 + n mod 10)]"
        using n by (subst str_nat.simps) simp
      have sm: "str_nat m = str_nat (m div 10) @ [char_of (48 + m mod 10)]"
        using False by (subst str_nat.simps) simp
      from less.prems sn sm have e: "str_nat (n div 10) = str_nat (m div 10)"
        and d: "(char_of (48 + n mod 10) :: char) = char_of (48 + m mod 10)" by simp_all
      from n have "n div 10 < n" by simp
      from less.IH [OF this e] have "n div 10 = m div 10" .
      moreover from d have "n mod 10 = m mod 10" by (intro digit_inj) simp_all
      ultimately show ?thesis by (metis div_mult_mod_eq)
    qed
  qed
qed

lemma dict_ok_Nil [simp]: "dict_ok []"
  by (simp add: dict_ok_def)

lemma dict_ok_assign_id: "dict_ok d \<Longrightarrow> dict_ok (assign_id d k)"
  by (auto simp: dict_ok_def assign_id_def)

lemma dict_ok_assign_all: "dict_ok d \<Longrightarrow> dict_ok (assign_all h is d)"
  unfolding assign_all_def by (induction "is" arbitrary: d) (auto intro: dict_ok_assign_id)

lemma dict_ok_distinct: "dict_ok d \<Longrightarrow> distinct (map fst d) \<and> distinct (map snd d)"
proof -
  assume d: "dict_ok d"
  have "inj_on (\<lambda>k. ''node_'' @ str_nat k) (set [0..<length d])"
    by (auto simp: inj_on_def dest: str_nat_inj)
  then have "distinct (map (\<lambda>k. ''node_'' @ str_nat k) [0..<length d])"
    by (simp add: distinct_map)
  with d show ?thesis by (simp add: dict_ok_def)
qed

text \<open>
  When no entry of the file has the text \<open>Root\<close>, \<open>add_nodes\<close> called on a node below
  the root of a parsed tree gives one identifier to every name of the subtree of that
  node, different names getting different identifiers; it declares a vertex for every
  node of the subtree, under the identifier of its name, and builds an edge for every
  edge of the subtree, between the identifiers of the names of its ends.
\<close>

lemma add_nodes_parsed:
  assumes p: "parse_org_file fs path = Inr (h, root)" and c: "fs path = Some content"
    and nr: "''Root'' \<notin> strip ` set (nonblank (readlines content))"
    and n: "0 < n" "n < length h" and fu: "length h \<le> fuel"
  shows "\<exists>t ids dot. tree_of (length h) h n = Some t \<and>
           add_nodes fuel h n None Digraph = Some (ids, dot) \<and>
           distinct (map fst ids) \<and> distinct (map snd ids) \<and>
           fst ` set ids = (\<lambda>i. name (h ! i)) ` set (preorder t) \<and>
           g_nodes dot = vertex_calls ids h (preorder t) \<and>
           g_edges dot = edge_calls ids h (edges t)"
proof -
  let ?nb = "nonblank (readlines content)"
  from parse_org_file_inv [of fs path content, OF c] p obtain T st where
    i: "inv ?nb T (h, st)" by auto
  from i have tree: "is_tree h T" and pre: "preorder T = [0..<length h]"
    and p0: "parent (h ! 0) = None" by (auto simp: inv_def)
  from n pre have "n \<in> set (preorder T)" by simp
  from subtree_exists [OF tree this] obtain t where
    t: "is_tree h t" "root_of t = n" "height t \<le> height T"
       "set (preorder t) \<subseteq> set (preorder T)" by blast
  have "height T \<le> length (preorder T)" by (rule height_le_size)
  with t(3) pre have ht: "height t \<le> length h" by simp
  from tree_of_is_tree [OF t(1) ht] t(2) have tr: "tree_of (length h) h n = Some t" by simp
  have names: "name (h ! k) \<noteq> ''Root''" if "k \<in> set (preorder t)" for k
  proof -
    from parent_in_tree [OF t(1) that] t(2) n(1) p0 have k0: "0 < k" by (cases "k = 0") auto
    from that t(4) pre have lt: "k < length h" by auto
    from inv_length [OF i] lt k0 have "k - 1 < length ?nb" by simp
    then have "strip (?nb ! (k - 1)) \<in> strip ` set ?nb" by simp
    with nr have "strip (?nb ! (k - 1)) \<noteq> ''Root''" by metis
    with inv_names_nth [OF i k0 lt] show ?thesis by simp
  qed
  define ids where "ids = assign_all h (preorder t) []"
  define dot where "dot = with_calls Digraph (vertex_calls ids h (preorder t)) (edge_calls ids h (edges t))"
  from ht fu have "height t \<le> fuel" by simp
  from add_nodes_tree [OF t(1) this, of "[]" Digraph] names t(2)
  have "add_nodes fuel h n (Some []) Digraph = Some (ids, dot)"
    by (simp add: ids_def dot_def)
  moreover have "add_nodes fuel h n None Digraph = add_nodes fuel h n (Some []) Digraph"
    by (cases fuel) simp_all
  ultimately have run: "add_nodes fuel h n None Digraph = Some (ids, dot)" by simp
  have "dict_ok ids" unfolding ids_def by (rule dict_ok_assign_all) simp
  from dict_ok_distinct [OF this] have d: "distinct (map fst ids)" "distinct (map snd ids)"
    by auto
  have k: "fst ` set ids = (\<lambda>i. name (h ! i)) ` set (preorder t)" by (simp add: ids_def)
  have g: "g_nodes dot = vertex_calls ids h (preorder t)" "g_edges dot = edge_calls ids h (edges t)"
    by (simp_all add: dot_def with_calls_def Digraph_def)
  from tr run d k g show ?thesis by blast
qed

end
